theory Spec2Isabelle
  imports Main "HOL-Library.Word" "HOL-Library.Multiset"
begin

unbundle bit_operations_syntax

section \<open>Values, memory bytes and byte order\<close>

text \<open>
  The unit of transfer is a C \<open>int\<close> (32 bits, two's complement); the frame on the
  connection is the object representation of a \<open>uint32_t\<close>. Both are 32-bit words:
  \<open>sint\<close> reads a word as the C \<open>int\<close>, \<open>uint\<close> as the \<open>uint32_t\<close>.
\<close>

type_synonym byte = "8 word"

type_synonym uint32 = "32 word"

type_synonym c_int = "32 word"

text \<open>Four bytes of memory, at increasing addresses: the variable \<open>net_val\<close>.\<close>

type_synonym bytes4 = "byte \<times> byte \<times> byte \<times> byte"

datatype endian = Little_endian | Big_endian

text \<open>The cast \<open>(uint32_t)value\<close> of \<open>producer.c\<close> line 63: the value modulo \<open>2^32\<close>.\<close>

definition to_uint32 :: "c_int \<Rightarrow> uint32" where
  "to_uint32 v = word_of_int (sint v)"

text \<open>The cast \<open>(int)ntohl(net_val)\<close> of \<open>consumer.c\<close> line 77: the same 32 bits.\<close>

definition to_int :: "uint32 \<Rightarrow> c_int" where
  "to_int x = word_of_int (uint x)"

text \<open>Byte \<open>k\<close> of a word, byte 0 the least significant.\<close>

definition byte_of :: "nat \<Rightarrow> uint32 \<Rightarrow> byte" where
  "byte_of k x = ucast (drop_bit (8 * k) x)"

text \<open>The word whose bytes are \<open>a b c d\<close>, most significant first.\<close>

definition be32 :: "byte \<Rightarrow> byte \<Rightarrow> byte \<Rightarrow> byte \<Rightarrow> uint32" where
  "be32 a b c d =
     push_bit 24 (ucast a) OR push_bit 16 (ucast b) OR push_bit 8 (ucast c) OR ucast d"

text \<open>
  The object representation of a \<open>uint32_t\<close> on a host of the given byte order: what
  \<open>send(socket_fd, &net_val, 4, 0)\<close> reads from memory and what
  \<open>recv(conn_fd, &net_val, 4, MSG_WAITALL)\<close> writes to it.
\<close>

definition store_u32 :: "endian \<Rightarrow> uint32 \<Rightarrow> bytes4" where
  "store_u32 e x = (case e of
      Little_endian \<Rightarrow> (byte_of 0 x, byte_of 1 x, byte_of 2 x, byte_of 3 x)
    | Big_endian \<Rightarrow> (byte_of 3 x, byte_of 2 x, byte_of 1 x, byte_of 0 x))"

definition load_u32 :: "endian \<Rightarrow> bytes4 \<Rightarrow> uint32" where
  "load_u32 e m = (case m of (a, b, c, d) \<Rightarrow>
     (case e of Little_endian \<Rightarrow> be32 d c b a | Big_endian \<Rightarrow> be32 a b c d))"

text \<open>
  \<open>htonl\<close> and \<open>ntohl\<close> of \<open>arpa/inet.h\<close>: the identity on a big-endian host, the
  reversal of the four bytes on a little-endian one.
\<close>

definition bswap32 :: "uint32 \<Rightarrow> uint32" where
  "bswap32 x = be32 (byte_of 0 x) (byte_of 1 x) (byte_of 2 x) (byte_of 3 x)"

definition htonl :: "endian \<Rightarrow> uint32 \<Rightarrow> uint32" where
  "htonl e x = (case e of Little_endian \<Rightarrow> bswap32 x | Big_endian \<Rightarrow> x)"

definition ntohl :: "endian \<Rightarrow> uint32 \<Rightarrow> uint32" where
  "ntohl e x = (case e of Little_endian \<Rightarrow> bswap32 x | Big_endian \<Rightarrow> x)"

text \<open>
  \<open>producer.c\<close> lines 63-64: \<open>net_val = htonl((uint32_t)value)\<close>, then the four bytes
  of \<open>net_val\<close> are handed to \<open>send\<close>.
\<close>

definition encode :: "endian \<Rightarrow> c_int \<Rightarrow> bytes4" where
  "encode e v = store_u32 e (htonl e (to_uint32 v))"

text \<open>
  \<open>consumer.c\<close> lines 61 and 77: the four received bytes are the memory of
  \<open>net_val\<close>, and \<open>value = (int)ntohl(net_val)\<close>.
\<close>

definition decode :: "endian \<Rightarrow> bytes4 \<Rightarrow> c_int" where
  "decode e m = to_int (ntohl e (load_u32 e m))"


section \<open>The consumer's worker pool\<close>

definition MAX_DATA :: int where
  "MAX_DATA = 100"

definition NUM_THREADS :: nat where
  "NUM_THREADS = 2"

text \<open>
  The control points of \<open>consumer_thread_func\<close> (\<open>consumer.c\<close> lines 50-85). A worker
  is at the statement it executes next; \<open>C_insert\<close> carries the local \<open>net_val\<close> and
  \<open>C_print\<close> the local \<open>value\<close>.
\<close>

datatype cpc =
    C_lock            \<comment> \<open>line 51: \<open>pthread_mutex_lock\<close>\<close>
  | C_check           \<comment> \<open>line 54: \<open>data_index >= MAX_DATA\<close>\<close>
  | C_recv            \<comment> \<open>lines 61-75: \<open>recv\<close> and the tests of its result\<close>
  | C_insert uint32   \<comment> \<open>lines 77-79: \<open>ntohl\<close>, the store and the increment\<close>
  | C_print c_int     \<comment> \<open>line 81: the status line\<close>
  | C_unlock          \<comment> \<open>line 83: unlock, then the next iteration\<close>
  | C_unlock_break    \<comment> \<open>lines 55, 64, 68, 73: unlock, then \<open>break\<close>\<close>
  | C_done            \<comment> \<open>line 85: the worker has returned\<close>

text \<open>
  The globals of \<open>consumer.c\<close>, the workers' control points and the two output
  streams. A status line is the pair of the worker and the value (the process id is
  the same on every line). \<open>recvd\<close> lists what the \<open>recv\<close> calls on \<open>conn_fd\<close> have
  returned, each with the memory of \<open>net_val\<close> after the call; \<open>ub\<close> records a store
  outside \<open>data_array\<close>.
\<close>

record cstate =
  data_array :: "c_int list"
  data_index :: int
  array_mutex :: "nat option"
  cpcs :: "cpc list"
  cout :: "(nat \<times> c_int) list"
  cerr :: "string list"
  recvd :: "(int \<times> bytes4) list"
  ub :: bool

text \<open>
  One scheduling event: the worker that runs its next statement and, for the case that
  this statement is the \<open>recv\<close>, the call's return value and the memory of \<open>net_val\<close>
  after it.
\<close>

type_synonym cevent = "nat \<times> int \<times> bytes4"

definition cgoto :: "nat \<Rightarrow> cpc \<Rightarrow> cstate \<Rightarrow> cstate" where
  "cgoto t p s = s\<lparr>cpcs := (cpcs s)[t := p]\<rparr>"

text \<open>
  One statement of one worker. A worker that is not there, has returned, or waits for
  a mutex another worker holds leaves the state as it is.
\<close>

definition cstep :: "endian \<Rightarrow> cevent \<Rightarrow> cstate \<Rightarrow> cstate" where
  "cstep e ev s = (case ev of (t, n, mem) \<Rightarrow>
     if length (cpcs s) \<le> t then s
     else (case cpcs s ! t of
       C_lock \<Rightarrow>
         (if array_mutex s = None then cgoto t C_check (s\<lparr>array_mutex := Some t\<rparr>) else s)
     | C_check \<Rightarrow>
         (if data_index s \<ge> MAX_DATA then cgoto t C_unlock_break s else cgoto t C_recv s)
     | C_recv \<Rightarrow>
         (let s = s\<lparr>recvd := recvd s @ [(n, mem)]\<rparr> in
          if n = 0 then cgoto t C_unlock_break s
          else if n < 0 then cgoto t C_unlock_break (s\<lparr>cerr := cerr s @ [''recv failed'']\<rparr>)
          else if n \<noteq> 4 then
            cgoto t C_unlock_break (s\<lparr>cerr := cerr s @ [''Partial read from socket'']\<rparr>)
          else cgoto t (C_insert (load_u32 e mem)) s)
     | C_insert net_val \<Rightarrow>
         (let v = to_int (ntohl e net_val) in
          if 0 \<le> data_index s \<and> data_index s < MAX_DATA
          then cgoto t (C_print v)
                 (s\<lparr>data_array := (data_array s)[nat (data_index s) := v],
                    data_index := data_index s + 1\<rparr>)
          else cgoto t (C_print v) (s\<lparr>data_index := data_index s + 1, ub := True\<rparr>))
     | C_print v \<Rightarrow> cgoto t C_unlock (s\<lparr>cout := cout s @ [(t, v)]\<rparr>)
     | C_unlock \<Rightarrow> cgoto t C_lock (s\<lparr>array_mutex := None\<rparr>)
     | C_unlock_break \<Rightarrow> cgoto t C_done (s\<lparr>array_mutex := None\<rparr>)
     | C_done \<Rightarrow> s))"

text \<open>A run: the events of a schedule, one after the other.\<close>

definition crun :: "endian \<Rightarrow> cevent list \<Rightarrow> cstate \<Rightarrow> cstate" where
  "crun e evs s = fold (cstep e) evs s"

text \<open>
  The state in which \<open>k\<close> workers start: \<open>data_array\<close> zero-initialised,
  \<open>data_index = 0\<close>, the mutex free (\<open>consumer.c\<close> lines 28-33).
\<close>

definition cinit :: "nat \<Rightarrow> cstate" where
  "cinit k = \<lparr>data_array = replicate (nat MAX_DATA) 0, data_index = 0, array_mutex = None,
     cpcs = replicate k C_lock, cout = [], cerr = [], recvd = [], ub = False\<rparr>"

text \<open>Every worker of the pool has returned: what \<open>pthread_join\<close> waits for.\<close>

definition call_done :: "cstate \<Rightarrow> bool" where
  "call_done s = list_all (\<lambda>p. p = C_done) (cpcs s)"

section \<open>The producer's worker pool\<close>

text \<open>
  The control points of \<open>producer_thread_func\<close> (\<open>producer.c\<close> lines 40-73); the
  points after the \<open>fscanf\<close> carry the local \<open>value\<close>.
\<close>

datatype ppc =
    P_lock            \<comment> \<open>line 44: \<open>pthread_mutex_lock\<close>\<close>
  | P_check           \<comment> \<open>line 47: \<open>numbers_read >= MAX_DATA\<close>\<close>
  | P_scan            \<comment> \<open>line 53: \<open>fscanf\<close> and the test of its result\<close>
  | P_inc c_int       \<comment> \<open>line 57: \<open>numbers_read++\<close>\<close>
  | P_print c_int     \<comment> \<open>line 58: the status line\<close>
  | P_unlock c_int    \<comment> \<open>line 61: unlock, then the send\<close>
  | P_unlock_break    \<comment> \<open>lines 48, 54: unlock, then \<open>break\<close>\<close>
  | P_send c_int      \<comment> \<open>lines 63-70: \<open>htonl\<close>, \<open>send\<close> and the test of its result\<close>
  | P_done            \<comment> \<open>line 73: the worker has returned\<close>

datatype sig_disposition = SIG_DFL | SIG_IGN

text \<open>
  What a \<open>send\<close> meets: the call returns a byte count or \<open>-1\<close>, or the peer has closed
  the connection. In the latter case the system raises \<open>SIGPIPE\<close>: a process that
  ignores the signal gets \<open>-1\<close> (\<open>EPIPE\<close>) from the call, one with the default
  disposition is terminated.
\<close>

datatype send_result = Send_ret int | Send_peer_closed

text \<open>
  The statics of \<open>producer.c\<close>, the workers' control points, the output streams and
  the frames handed to \<open>send\<close>, each with the call's return value.

  The rest of the input file, as \<open>fscanf(input_file, "%d", &value)\<close> meets it, is
  given by two fields. \<open>input_file\<close> is the sequence of integers that the successive
  calls still convert. Behind the last of them is the end of the file, or a character
  that cannot start an integer: a call that meets it fails and consumes nothing, so every
  later call fails as well. \<open>lone_signs\<close> gives, for each integer of \<open>input_file\<close> in
  turn, the number of signs without a digit behind them (a \<open>+\<close> or \<open>-\<close> followed by
  white space, say) that stand before it; a further entry counts those behind the last
  integer, and a missing entry is \<open>0\<close>. A call that meets such a sign consumes it and
  fails, and the next call reads on behind it.
\<close>

record pstate =
  input_file :: "c_int list"
  lone_signs :: "nat list"
  numbers_read :: int
  file_mutex :: "nat option"
  ppcs :: "ppc list"
  pout :: "(nat \<times> c_int) list"
  perr :: "string list"
  sent :: "(bytes4 \<times> int) list"
  sigpipe :: sig_disposition
  killed :: bool

text \<open>
  One scheduling event: the worker that runs its next statement and, for the case that
  this statement is the \<open>send\<close>, what the call meets.
\<close>

type_synonym pevent = "nat \<times> send_result"

definition pgoto :: "nat \<Rightarrow> ppc \<Rightarrow> pstate \<Rightarrow> pstate" where
  "pgoto t p s = s\<lparr>ppcs := (ppcs s)[t := p]\<rparr>"

text \<open>Lines 63-70, once \<open>send\<close> has returned \<open>sent_bytes\<close>.\<close>

definition send_returns :: "endian \<Rightarrow> nat \<Rightarrow> c_int \<Rightarrow> int \<Rightarrow> pstate \<Rightarrow> pstate" where
  "send_returns e t v sent_bytes s =
     (if sent_bytes \<noteq> 4
      then pgoto t P_done
             (s\<lparr>sent := sent s @ [(encode e v, sent_bytes)], perr := perr s @ [''send failed'']\<rparr>)
      else pgoto t P_lock (s\<lparr>sent := sent s @ [(encode e v, sent_bytes)]\<rparr>))"

text \<open>Whether the next token of the file is a sign without a digit, and the file behind it.\<close>

fun sign_next :: "nat list \<Rightarrow> bool" where
  "sign_next (Suc g # gs) = True"
| "sign_next gs = False"

fun skip_sign :: "nat list \<Rightarrow> nat list" where
  "skip_sign (Suc g # gs) = g # gs"
| "skip_sign gs = gs"

definition pstep :: "endian \<Rightarrow> pevent \<Rightarrow> pstate \<Rightarrow> pstate" where
  "pstep e ev s = (case ev of (t, r) \<Rightarrow>
     if killed s \<or> length (ppcs s) \<le> t then s
     else (case ppcs s ! t of
       P_lock \<Rightarrow>
         (if file_mutex s = None then pgoto t P_check (s\<lparr>file_mutex := Some t\<rparr>) else s)
     | P_check \<Rightarrow>
         (if numbers_read s \<ge> MAX_DATA then pgoto t P_unlock_break s else pgoto t P_scan s)
     | P_scan \<Rightarrow>
         (if sign_next (lone_signs s)
          then pgoto t P_unlock_break (s\<lparr>lone_signs := skip_sign (lone_signs s)\<rparr>)
          else (case input_file s of
                  [] \<Rightarrow> pgoto t P_unlock_break s
                | v # vs \<Rightarrow>
                    pgoto t (P_inc v) (s\<lparr>input_file := vs, lone_signs := tl (lone_signs s)\<rparr>)))
     | P_inc v \<Rightarrow> pgoto t (P_print v) (s\<lparr>numbers_read := numbers_read s + 1\<rparr>)
     | P_print v \<Rightarrow> pgoto t (P_unlock v) (s\<lparr>pout := pout s @ [(t, v)]\<rparr>)
     | P_unlock v \<Rightarrow> pgoto t (P_send v) (s\<lparr>file_mutex := None\<rparr>)
     | P_unlock_break \<Rightarrow> pgoto t P_done (s\<lparr>file_mutex := None\<rparr>)
     | P_send v \<Rightarrow>
         (case r of
            Send_ret sent_bytes \<Rightarrow> send_returns e t v sent_bytes s
          | Send_peer_closed \<Rightarrow>
              (if sigpipe s = SIG_IGN then send_returns e t v (- 1) s else s\<lparr>killed := True\<rparr>))
     | P_done \<Rightarrow> s))"

definition prun :: "endian \<Rightarrow> pevent list \<Rightarrow> pstate \<Rightarrow> pstate" where
  "prun e evs s = fold (pstep e) evs s"

text \<open>
  The process state when \<open>main\<close> starts (\<open>producer.c\<close> lines 28-31, every signal at its
  default disposition), and the state in which \<open>k\<close> workers start on the opened file,
  with the integers \<open>src\<close> and the signs \<open>signs\<close>: \<open>main\<close> has ignored \<open>SIGPIPE\<close>
  in its first statement (line 77).
\<close>

definition pstart :: pstate where
  "pstart = \<lparr>input_file = [], lone_signs = [], numbers_read = 0, file_mutex = None, ppcs = [],
     pout = [], perr = [], sent = [], sigpipe = SIG_DFL, killed = False\<rparr>"

definition pinit :: "c_int list \<Rightarrow> nat list \<Rightarrow> nat \<Rightarrow> pstate" where
  "pinit src signs k = pstart\<lparr>sigpipe := SIG_IGN, input_file := src, lone_signs := signs,
     ppcs := replicate k P_lock\<rparr>"

definition pall_done :: "pstate \<Rightarrow> bool" where
  "pall_done s = list_all (\<lambda>p. p = P_done) (ppcs s)"

section \<open>The two \<open>main\<close> functions\<close>

definition EXIT_FAILURE :: int where
  "EXIT_FAILURE = 1"

definition MAX_RETRIES :: int where
  "MAX_RETRIES = 50"

text \<open>The calls of \<open>main\<close> that the properties below speak about, in program order.\<close>

datatype call =
    Socket int        \<comment> \<open>\<open>socket\<close> returned this descriptor\<close>
  | Connect int       \<comment> \<open>\<open>connect\<close> on this descriptor\<close>
  | Close int
  | Usleep nat
  | Alarm nat
  | Kill_SIGTERM      \<comment> \<open>\<open>kill(pid, SIGTERM)\<close>, \<open>pid\<close> the consumer process\<close>
  | Waitpid
  | Fclose

text \<open>
  How a \<open>main\<close> ends: the process exits with a status, having made the calls and
  leaving the process state; or the image is replaced by \<open>./consumer\<close> (the forked
  child); or \<open>pthread_join\<close> is still waiting when the schedule is used up.
\<close>

datatype 's outcome = Exit int "call list" 's | Exec_consumer | Joining

fun exit_code :: "'s outcome \<Rightarrow> int option" where
  "exit_code (Exit c cs s) = Some c"
| "exit_code _ = None"

text \<open>
  The \<open>for\<close> statements at \<open>producer.c\<close> lines 170-176 and \<open>consumer.c\<close> lines
  155-161: \<open>rets i\<close> is the return value of the \<open>i\<close>-th \<open>pthread_create\<close>; the
  result is \<open>created\<close>. When a call fails, \<open>main\<close> writes one line to \<open>stderr\<close>
  (\<open>create_log\<close>); the model puts it before the lines of the workers.
\<close>

primrec create_loop :: "(nat \<Rightarrow> int) \<Rightarrow> nat \<Rightarrow> nat \<Rightarrow> nat" where
  "create_loop rets i 0 = 0"
| "create_loop rets i (Suc k) =
     (if rets i \<noteq> 0 then 0 else Suc (create_loop rets (Suc i) k))"

definition create_log :: "nat \<Rightarrow> string list" where
  "create_log created = (if created < NUM_THREADS then [''pthread_create''] else [])"

subsection \<open>The consumer\<close>

text \<open>
  What the system answers to the calls of the consumer's \<open>main\<close>: the return values
  of \<open>socket\<close>, \<open>setsockopt\<close>, \<open>bind\<close>, \<open>listen\<close> and \<open>accept\<close>, whether
  \<open>alarm_handler\<close> has run (\<open>timed_out = 1\<close>) when \<open>accept\<close> returns, the return
  values of \<open>pthread_create\<close>, and the schedule of the workers.
\<close>

record cenv =
  ce_socket :: int
  ce_setsockopt :: int
  ce_bind :: int
  ce_listen :: int
  ce_accept :: int
  ce_timed_out :: bool
  ce_create :: "nat \<Rightarrow> int"
  ce_sched :: "cevent list"

definition cfail :: "call list \<Rightarrow> string \<Rightarrow> cstate outcome" where
  "cfail cs msg = Exit EXIT_FAILURE cs ((cinit 0)\<lparr>cerr := [msg]\<rparr>)"

text \<open>\<open>consumer.c\<close> lines 88-171.\<close>

definition consumer_main :: "endian \<Rightarrow> cenv \<Rightarrow> cstate outcome" where
  "consumer_main e env =
     (let listen_fd = ce_socket env; conn_fd = ce_accept env in
      if listen_fd < 0 then cfail [Socket listen_fd] ''socket creation failed''
      else if ce_setsockopt env < 0
        then cfail [Socket listen_fd, Close listen_fd] ''setsockopt failed''
      else if ce_bind env < 0 then cfail [Socket listen_fd, Close listen_fd] ''bind failed''
      else if ce_listen env < 0 then cfail [Socket listen_fd, Close listen_fd] ''listen failed''
      else if conn_fd < 0 then
        (if ce_timed_out env
         then Exit 0 [Socket listen_fd, Alarm 5, Close listen_fd]
                ((cinit 0)\<lparr>cerr := [''No producer connected within timeout period'']\<rparr>)
         else cfail [Socket listen_fd, Alarm 5, Close listen_fd] ''accept failed'')
      else
        (let created = create_loop (ce_create env) 0 NUM_THREADS;
             s = crun e (ce_sched env) (cinit created)
         in if call_done s
            then Exit 0 [Socket listen_fd, Alarm 5, Alarm 0, Close listen_fd, Close conn_fd]
                   (s\<lparr>cerr := create_log created @ cerr s\<rparr>)
            else Joining))"

text \<open>
  The \<open>accept\<close> call under the alarm (\<open>consumer.c\<close> lines 126-133). \<open>main\<close>
  installs \<open>alarm_handler\<close> with \<open>signal\<close>, arms \<open>alarm(5)\<close> and calls \<open>accept\<close>
  on a blocking socket; the handler only sets \<open>timed_out\<close>. What the interrupted call
  does when the handler returns depends on how \<open>signal\<close> installs a handler. With the
  BSD semantics (the \<open>signal\<close> of macOS, for which the source has an \<open>#ifdef\<close>, of the
  BSDs and of glibc by default) the handler is installed with \<open>SA_RESTART\<close> and the
  call is restarted; with the System V semantics the call fails with \<open>EINTR\<close>.
\<close>

datatype signal_semantics = BSD_signal | SysV_signal

text \<open>
  What happens at the listening socket: a producer connects before the alarm and \<open>accept\<close>
  returns the new descriptor; \<open>accept\<close> fails before the alarm; or no producer connects.
\<close>

datatype peer = Producer_connects int | Accept_error | No_producer

text \<open>
  The return value of \<open>accept\<close> and the value of \<open>timed_out\<close> when it returns;
  \<open>None\<close>: the call never returns. With no producer, the alarm goes off after 5
  seconds and the handler runs. A call that fails with \<open>EINTR\<close> returns \<open>-1\<close>; a
  restarted call waits on, and no second alarm is armed.
\<close>

definition accept_call :: "signal_semantics \<Rightarrow> peer \<Rightarrow> (int \<times> bool) option" where
  "accept_call sem p = (case p of
      Producer_connects fd \<Rightarrow> Some (fd, False)
    | Accept_error \<Rightarrow> Some (- 1, False)
    | No_producer \<Rightarrow> (case sem of BSD_signal \<Rightarrow> None | SysV_signal \<Rightarrow> Some (- 1, True)))"

text \<open>
  The consumer process: \<open>main\<close> with the result of \<open>accept\<close> that the system and the
  peer determine, if \<open>main\<close> gets as far as that call. \<open>None\<close>: the process never
  leaves \<open>accept\<close>.
\<close>

definition consumer_process ::
    "endian \<Rightarrow> signal_semantics \<Rightarrow> peer \<Rightarrow> cenv \<Rightarrow> cstate outcome option" where
  "consumer_process e sem p env =
     (if ce_socket env < 0 \<or> ce_setsockopt env < 0 \<or> ce_bind env < 0 \<or> ce_listen env < 0
      then Some (consumer_main e env)
      else (case accept_call sem p of
              None \<Rightarrow> None
            | Some (conn_fd, t) \<Rightarrow>
                Some (consumer_main e (env\<lparr>ce_accept := conn_fd, ce_timed_out := t\<rparr>))))"

subsection \<open>The producer\<close>

datatype errno = ECONNREFUSED | ENETUNREACH | Errno_other

text \<open>
  One connection attempt, as the system answers it: the return value of \<open>socket\<close>, the
  return value of \<open>connect\<close>, and \<open>errno\<close> as line 146 reads it.
\<close>

type_synonym attempt = "int \<times> int \<times> errno"

text \<open>
  The loop at \<open>producer.c\<close> lines 125-164, \<open>att k\<close> the attempt made when \<open>retries\<close>
  is \<open>k\<close>. The result is the connected descriptor (\<open>Inr\<close>) or the status of the
  \<open>exit\<close> (\<open>Inl\<close>), with the calls made and the lines written to \<open>stderr\<close>.
\<close>

function connect_loop :: "(nat \<Rightarrow> attempt) \<Rightarrow> int \<Rightarrow> (int + int) \<times> call list \<times> string list" where
  "connect_loop att retries = (case att (nat retries) of (socket_fd, c, err) \<Rightarrow>
     if socket_fd < 0
     then (Inl EXIT_FAILURE, [Socket socket_fd, Kill_SIGTERM, Waitpid, Fclose],
           [''socket creation failed''])
     else if c = 0 then (Inr socket_fd, [Socket socket_fd, Connect socket_fd], [])
     else if err = ECONNREFUSED \<or> err = ENETUNREACH then
       (if retries + 1 > MAX_RETRIES
        then (Inl EXIT_FAILURE,
              [Socket socket_fd, Connect socket_fd, Close socket_fd, Usleep 100000,
               Kill_SIGTERM, Waitpid, Fclose],
              [''Failed to connect after 50 retries''])
        else (case connect_loop att (retries + 1) of (r, cs, msgs) \<Rightarrow>
                (r, [Socket socket_fd, Connect socket_fd, Close socket_fd, Usleep 100000] @ cs,
                 msgs)))
     else (Inl EXIT_FAILURE,
           [Socket socket_fd, Connect socket_fd, Close socket_fd, Kill_SIGTERM, Waitpid, Fclose],
           [''connect'']))"
  by pat_completeness auto
termination
  by (relation "measure (\<lambda>(att, retries). nat (MAX_RETRIES - retries))") auto

declare connect_loop.simps [simp del]

text \<open>
  What the system answers to the calls of the producer's \<open>main\<close>: the return value of
  \<open>fork\<close>, whether \<open>execl\<close> returns (it does so only when it fails), the integers and the
  signs of the input file if \<open>fopen\<close> succeeds, the connection attempts, the return values of
  \<open>pthread_create\<close>, and the schedule of the workers.
\<close>

record penv =
  pe_fork :: int
  pe_execl_returns :: bool
  pe_fopen :: "(c_int list \<times> nat list) option"
  pe_attempts :: "nat \<Rightarrow> attempt"
  pe_create :: "nat \<Rightarrow> int"
  pe_sched :: "pevent list"

definition pfail :: "call list \<Rightarrow> string list \<Rightarrow> pstate outcome" where
  "pfail cs msgs = Exit EXIT_FAILURE cs (pstart\<lparr>sigpipe := SIG_IGN, perr := msgs\<rparr>)"

text \<open>\<open>producer.c\<close> lines 76-190.\<close>

definition producer_main :: "endian \<Rightarrow> penv \<Rightarrow> pstate outcome" where
  "producer_main e env =
     (if pe_fork env < 0 then pfail [] [''fork failed'']
      else if pe_fork env = 0 then
        (if pe_execl_returns env then pfail [] [''execl failed''] else Exec_consumer)
      else (case pe_fopen env of
        None \<Rightarrow> pfail [Kill_SIGTERM, Waitpid] [''fopen numbers.txt'']
      | Some (src, signs) \<Rightarrow>
          (case connect_loop (pe_attempts env) 0 of
             (Inl status, cs, msgs) \<Rightarrow> Exit status cs (pstart\<lparr>sigpipe := SIG_IGN, perr := msgs\<rparr>)
           | (Inr socket_fd, cs, msgs) \<Rightarrow>
               (let created = create_loop (pe_create env) 0 NUM_THREADS;
                    s = prun e (pe_sched env) (pinit src signs created)
                in if pall_done s
                   then Exit 0 (cs @ [Close socket_fd, Fclose, Waitpid])
                          (s\<lparr>perr := create_log created @ perr s\<rparr>)
                   else Joining))))"


section \<open>Predicates of the statements, invariants and example runs\<close>

subsection \<open>Invariants of the consumer's pool\<close>

text \<open>
  A worker between its lock and its unlock (\<open>holds_lock\<close>) is the owner of the
  mutex, and a worker that has passed the test of line 54 and not yet stored
  (\<open>may_insert\<close>) finds room in the buffer.
\<close>

fun holds_lock :: "cpc \<Rightarrow> bool" where
  "holds_lock C_lock = False"
| "holds_lock C_done = False"
| "holds_lock _ = True"

fun may_insert :: "cpc \<Rightarrow> bool" where
  "may_insert C_recv = True"
| "may_insert (C_insert x) = True"
| "may_insert _ = False"

definition lock_inv :: "cstate \<Rightarrow> bool" where
  "lock_inv s = (\<forall>t<length (cpcs s). holds_lock (cpcs s ! t) \<longrightarrow> array_mutex s = Some t)"

definition room_inv :: "cstate \<Rightarrow> bool" where
  "room_inv s = (\<forall>t<length (cpcs s). may_insert (cpcs s ! t) \<longrightarrow> data_index s < MAX_DATA)"

definition cinv :: "cstate \<Rightarrow> bool" where
  "cinv s = (length (data_array s) = nat MAX_DATA \<and> 0 \<le> data_index s \<and> data_index s \<le> MAX_DATA
     \<and> \<not> ub s \<and> lock_inv s \<and> room_inv s)"

text \<open>The only statement that writes to the buffer.\<close>

fun is_insert :: "cpc \<Rightarrow> bool" where
  "is_insert (C_insert x) = True"
| "is_insert _ = False"

subsection \<open>Iterations of a consumer worker\<close>

text \<open>A whole iteration of a worker that finds the mutex free and receives a frame.\<close>

definition insert_events :: "nat \<Rightarrow> bytes4 \<Rightarrow> cevent list" where
  "insert_events t mem = replicate 6 (t, 4, mem)"

text \<open>A run of one worker that fills the buffer.\<close>

definition fill_events :: "cevent list" where
  "fill_events = concat (replicate 100 (insert_events 0 (0, 0, 0, 7)))"

subsection \<open>What the buffer holds\<close>

text \<open>
  The frames that \<open>recv\<close> has delivered whole (return value 4), in the order of the
  calls. Their decoded values are the occupied slots of the buffer, followed by the
  value that the owner of the mutex has received and not yet stored.
\<close>

definition complete_frames :: "(int \<times> bytes4) list \<Rightarrow> bytes4 list" where
  "complete_frames r = map snd (filter (\<lambda>x. fst x = 4) r)"

fun pending_value :: "endian \<Rightarrow> cpc \<Rightarrow> c_int list" where
  "pending_value e (C_insert x) = [to_int (ntohl e x)]"
| "pending_value e _ = []"

definition cpending :: "endian \<Rightarrow> cstate \<Rightarrow> c_int list" where
  "cpending e s = (case array_mutex s of None \<Rightarrow> [] | Some t \<Rightarrow> pending_value e (cpcs s ! t))"

definition data_inv :: "endian \<Rightarrow> cstate \<Rightarrow> bool" where
  "data_inv e s = (map (decode e) (complete_frames (recvd s))
      = take (nat (data_index s)) (data_array s) @ cpending e s)"

text \<open>A run that takes worker 0 to its \<open>recv\<close>.\<close>

definition recv_ready :: "cevent list" where
  "recv_ready = [(0, 4, (0, 0, 0, 0)), (0, 4, (0, 0, 0, 0))]"

subsection \<open>Invariants of the producer's pool\<close>

text \<open>
  A worker between its lock and its unlock (\<open>pholds\<close>) is the owner of the mutex,
  and a worker that has passed the test of line 47 and not yet counted (\<open>may_read\<close>)
  finds the counter below \<open>MAX_DATA\<close>.
\<close>

fun pholds :: "ppc \<Rightarrow> bool" where
  "pholds P_lock = False"
| "pholds (P_send v) = False"
| "pholds P_done = False"
| "pholds _ = True"

fun may_read :: "ppc \<Rightarrow> bool" where
  "may_read P_scan = True"
| "may_read (P_inc v) = True"
| "may_read _ = False"

definition plock_inv :: "pstate \<Rightarrow> bool" where
  "plock_inv s = (\<forall>t<length (ppcs s). pholds (ppcs s ! t) \<longrightarrow> file_mutex s = Some t)"

definition proom_inv :: "pstate \<Rightarrow> bool" where
  "proom_inv s = (\<forall>t<length (ppcs s). may_read (ppcs s ! t) \<longrightarrow> numbers_read s < MAX_DATA)"

definition pinv :: "pstate \<Rightarrow> bool" where
  "pinv s = (0 \<le> numbers_read s \<and> numbers_read s \<le> MAX_DATA \<and> sigpipe s = SIG_IGN
     \<and> \<not> killed s \<and> plock_inv s \<and> proom_inv s)"

text \<open>
  A send under \<open>SIG_IGN\<close>: the return value that the worker sees.
\<close>

fun send_value :: "send_result \<Rightarrow> int" where
  "send_value (Send_ret n) = n"
| "send_value Send_peer_closed = - 1"

text \<open>
  The position in the source. The worker that holds the mutex may have taken a value
  from the file that is not yet counted (\<open>P_inc\<close>) or counted but not yet printed
  (\<open>P_print\<close>).
\<close>

fun unprinted_at :: "ppc \<Rightarrow> c_int list" where
  "unprinted_at (P_inc v) = [v]"
| "unprinted_at (P_print v) = [v]"
| "unprinted_at _ = []"

fun counted_at :: "ppc \<Rightarrow> int" where
  "counted_at (P_print v) = 1"
| "counted_at _ = 0"

definition owner_pc :: "pstate \<Rightarrow> ppc" where
  "owner_pc s = (case file_mutex s of None \<Rightarrow> P_lock | Some t \<Rightarrow> ppcs s ! t)"

definition file_inv :: "c_int list \<Rightarrow> pstate \<Rightarrow> bool" where
  "file_inv src s = (src = map snd (pout s) @ unprinted_at (owner_pc s) @ input_file s
     \<and> numbers_read s = int (length (pout s)) + counted_at (owner_pc s))"

text \<open>A run that takes worker 0 to its increment, with the value 5 read.\<close>

definition reading_events :: "pevent list" where
  "reading_events = [(0, Send_ret 4), (0, Send_ret 4), (0, Send_ret 4)]"

subsection \<open>Runs of the producer without a failing send\<close>

text \<open>
  The frames. A value that has been reported read is either in a frame handed to
  \<open>send\<close> or still held by its worker (\<open>P_unlock\<close>, \<open>P_send\<close>).
\<close>

fun held :: "endian \<Rightarrow> ppc \<Rightarrow> bytes4 multiset" where
  "held e (P_unlock v) = {#encode e v#}"
| "held e (P_send v) = {#encode e v#}"
| "held e _ = {#}"

definition held_frames :: "endian \<Rightarrow> ppc list \<Rightarrow> bytes4 multiset" where
  "held_frames e pcs = sum_list (map (held e) pcs)"

definition sent_inv :: "endian \<Rightarrow> pstate \<Rightarrow> bool" where
  "sent_inv e s = (mset (map (encode e \<circ> snd) (pout s))
      = mset (map fst (sent s)) + held_frames e (ppcs s))"

text \<open>
  Runs without a failing send: every \<open>send\<close> has returned 4 and no worker has written
  to \<open>stderr\<close> (\<open>silent_inv\<close>). If moreover the file holds no sign without a digit
  (\<open>sign_free\<close>), a worker has left its loop only where the counter has reached
  \<open>MAX_DATA\<close> or the source is exhausted (\<open>quiet_inv\<close>).
\<close>

definition silent_inv :: "pstate \<Rightarrow> bool" where
  "silent_inv s = ((\<forall>x\<in>set (sent s). snd x = 4) \<and> perr s = [])"

definition sign_free :: "nat list \<Rightarrow> bool" where
  "sign_free gs = (\<forall>g\<in>set gs. g = 0)"

fun exited :: "ppc \<Rightarrow> bool" where
  "exited P_unlock_break = True"
| "exited P_done = True"
| "exited _ = False"

definition drained :: "pstate \<Rightarrow> bool" where
  "drained s = (numbers_read s \<ge> MAX_DATA \<or> input_file s = [])"

definition quiet_inv :: "pstate \<Rightarrow> bool" where
  "quiet_inv s = (sign_free (lone_signs s)
     \<and> (\<forall>t<length (ppcs s). exited (ppcs s ! t) \<longrightarrow> drained s))"

text \<open>The owner of the mutex is a worker of the pool.\<close>

definition owner_valid :: "pstate \<Rightarrow> bool" where
  "owner_valid s = (\<forall>t. file_mutex s = Some t \<longrightarrow> t < length (ppcs s))"

text \<open>A run that ends: one worker reads and sends the whole source, then all return.\<close>

definition read_events :: "nat \<Rightarrow> pevent list" where
  "read_events t = replicate 7 (t, Send_ret 4)"

definition exit_events :: "nat \<Rightarrow> pevent list" where
  "exit_events t = replicate 4 (t, Send_ret 4)"

definition drain_events :: "nat \<Rightarrow> nat \<Rightarrow> pevent list" where
  "drain_events n k = concat (replicate n (read_events 0)) @ concat (map exit_events [0..<k])"

text \<open>Worker 0 reads and sends the first value; worker 1 then comes to its \<open>fscanf\<close>.\<close>

definition scanning_events :: "pevent list" where
  "scanning_events = read_events 0 @ replicate 2 (1, Send_ret 4)"

text \<open>
  Two runs on a file with the integers 1, 2, 3 and signs without a digit between 1 and
  2. Worker 0 reads and sends 1, then worker 1 meets a sign and returns. In the first
  run there is a second sign: worker 0 meets it and returns as well. In the second run
  there is none, and worker 0 reads and sends 2 and 3 and returns at the end of the file.
\<close>

definition two_signs_events :: "pevent list" where
  "two_signs_events = read_events 0 @ exit_events 1 @ exit_events 0"

definition one_sign_events :: "pevent list" where
  "one_sign_events = read_events 0 @ exit_events 1 @ read_events 0 @ read_events 0 @ exit_events 0"

subsection \<open>A failing send\<close>

text \<open>The owner of the mutex is between its lock and its unlock.\<close>

definition owner_holds :: "pstate \<Rightarrow> bool" where
  "owner_holds s = (\<forall>t. file_mutex s = Some t \<longrightarrow> t < length (ppcs s) \<and> pholds (ppcs s ! t))"

text \<open>A run that takes worker 0 to its \<open>send\<close>.\<close>

definition sending_events :: "pevent list" where
  "sending_events = replicate 6 (0, Send_ret 4)"

subsection \<open>The producer's connection loop\<close>

text \<open>A failed attempt that the loop retries, and the calls it makes.\<close>

definition retryable :: "attempt \<Rightarrow> bool" where
  "retryable a = (case a of (socket_fd, c, err) \<Rightarrow>
     0 \<le> socket_fd \<and> c \<noteq> 0 \<and> (err = ECONNREFUSED \<or> err = ENETUNREACH))"

definition retry_block :: "attempt \<Rightarrow> call list" where
  "retry_block a = (case a of (socket_fd, c, err) \<Rightarrow>
     [Socket socket_fd, Connect socket_fd, Close socket_fd, Usleep 100000])"

definition retry_calls :: "(nat \<Rightarrow> attempt) \<Rightarrow> nat \<Rightarrow> nat \<Rightarrow> call list" where
  "retry_calls att j k = concat (map (\<lambda>i. retry_block (att i)) [j..<k])"

text \<open>The \<open>connect\<close> calls among the calls made.\<close>

fun is_connect :: "call \<Rightarrow> bool" where
  "is_connect (Connect fd) = True"
| "is_connect _ = False"

text \<open>
  No consumer listens: every attempt is refused. And a consumer that listens from the
  third attempt on.
\<close>

definition refused :: "nat \<Rightarrow> attempt" where
  "refused k = (3, - 1, ECONNREFUSED)"

definition ready_at_2 :: "nat \<Rightarrow> attempt" where
  "ready_at_2 k = (if k < 2 then (3, - 1, ENETUNREACH) else (4, 0, Errno_other))"

subsection \<open>Exit codes and the consumer's timeout\<close>

text \<open>The setup errors after which a \<open>main\<close> calls \<open>exit(EXIT_FAILURE)\<close>.\<close>

definition consumer_setup_fails :: "cenv \<Rightarrow> bool" where
  "consumer_setup_fails env = (ce_socket env < 0 \<or> ce_setsockopt env < 0 \<or> ce_bind env < 0
     \<or> ce_listen env < 0 \<or> (ce_accept env < 0 \<and> \<not> ce_timed_out env))"

definition producer_setup_fails :: "penv \<Rightarrow> bool" where
  "producer_setup_fails env = (pe_fork env < 0 \<or> (pe_fork env = 0 \<and> pe_execl_returns env)
     \<or> (0 < pe_fork env
          \<and> (pe_fopen env = None \<or> isl (fst (connect_loop (pe_attempts env) 0)))))"

text \<open>Concrete answers of the system, for the examples below.\<close>

definition cenv_ok :: cenv where
  "cenv_ok = \<lparr>ce_socket = 3, ce_setsockopt = 0, ce_bind = 0, ce_listen = 0, ce_accept = 4,
     ce_timed_out = False, ce_create = (\<lambda>i. 0), ce_sched = []\<rparr>"

definition cenv_create_fails :: cenv where
  "cenv_create_fails = cenv_ok\<lparr>ce_create := (\<lambda>i. 11)\<rparr>"

definition cenv_timeout :: cenv where
  "cenv_timeout = cenv_ok\<lparr>ce_accept := - 1, ce_timed_out := True\<rparr>"

definition cenv_bind_fails :: cenv where
  "cenv_bind_fails = cenv_ok\<lparr>ce_bind := - 1\<rparr>"

definition penv_refused :: penv where
  "penv_refused = \<lparr>pe_fork = 100, pe_execl_returns = False, pe_fopen = Some ([1, 2], []),
     pe_attempts = refused, pe_create = (\<lambda>i. 0), pe_sched = []\<rparr>"

definition penv_create_fails :: penv where
  "penv_create_fails = penv_refused\<lparr>pe_attempts := ready_at_2, pe_create := (\<lambda>i. 11)\<rparr>"


section \<open>The byte-order round trip\<close>


lemma byte_of_be32:
  "byte_of 0 (be32 a b c d) = d" "byte_of (Suc 0) (be32 a b c d) = c"
  "byte_of 2 (be32 a b c d) = b" "byte_of 3 (be32 a b c d) = a"
  unfolding byte_of_def be32_def
  by (rule bit_word_eqI; simp add: bit_simps; auto dest: bit_imp_le_length)+

lemma be32_byte_of: "be32 (byte_of 3 x) (byte_of 2 x) (byte_of 1 x) (byte_of 0 x) = x"
proof (rule bit_word_eqI)
  fix n
  assume "n < LENGTH(32)"
  then consider "n < 8" | "8 \<le> n \<and> n < 16" | "16 \<le> n \<and> n < 24" | "24 \<le> n \<and> n < 32"
    by force
  then show "bit (be32 (byte_of 3 x) (byte_of 2 x) (byte_of 1 x) (byte_of 0 x)) n = bit x n"
    by cases (auto simp: be32_def byte_of_def bit_simps)
qed


lemma ntohl_load: "ntohl e (load_u32 e (a, b, c, d)) = be32 a b c d"
  by (cases e) (simp_all add: load_u32_def ntohl_def bswap32_def byte_of_be32 be32_byte_of)





section \<open>Invariants of the consumer's pool\<close>

lemma cinv_cinit: "cinv (cinit k)"
  by (simp add: cinv_def lock_inv_def room_inv_def cinit_def MAX_DATA_def)

lemma may_insert_holds_lock: "may_insert p \<Longrightarrow> holds_lock p"
  by (cases p) simp_all

lemma lock_invI:
  assumes "lock_inv s" "t < length (cpcs s)" "cpcs s' = (cpcs s)[t := p]"
    "holds_lock p \<longrightarrow> array_mutex s' = Some t"
    "array_mutex s' = array_mutex s \<or> array_mutex s = None \<or> array_mutex s = Some t"
  shows "lock_inv s'"
  unfolding lock_inv_def
proof (intro allI impI)
  fix u
  assume u: "u < length (cpcs s')" and h: "holds_lock (cpcs s' ! u)"
  show "array_mutex s' = Some u"
  proof (cases "u = t")
    case True
    with assms(2,3,4) h show ?thesis by simp
  next
    case False
    with u h assms(3) have "u < length (cpcs s)" "holds_lock (cpcs s ! u)"
      by simp_all
    with assms(1) have "array_mutex s = Some u" by (simp add: lock_inv_def)
    with assms(5) False show ?thesis by auto
  qed
qed

lemma room_invI:
  assumes "room_inv s" "t < length (cpcs s)" "cpcs s' = (cpcs s)[t := p]"
    "may_insert p \<longrightarrow> data_index s' < MAX_DATA"
    "data_index s' = data_index s \<or> (lock_inv s \<and> array_mutex s = Some t)"
  shows "room_inv s'"
  unfolding room_inv_def
proof (intro allI impI)
  fix u
  assume u: "u < length (cpcs s')" and h: "may_insert (cpcs s' ! u)"
  show "data_index s' < MAX_DATA"
  proof (cases "u = t")
    case True
    with assms(2,3,4) h show ?thesis by simp
  next
    case False
    with u h assms(3) have hu: "u < length (cpcs s)" "may_insert (cpcs s ! u)"
      by simp_all
    with assms(1) have d: "data_index s < MAX_DATA" by (simp add: room_inv_def)
    from assms(5) show ?thesis
    proof
      assume "data_index s' = data_index s"
      with d show ?thesis by simp
    next
      assume l: "lock_inv s \<and> array_mutex s = Some t"
      from hu have "holds_lock (cpcs s ! u)" by (simp add: may_insert_holds_lock)
      with l hu(1) have "array_mutex s = Some u" unfolding lock_inv_def by blast
      with l False show ?thesis by simp
    qed
  qed
qed

lemma cinv_cstep:
  assumes "cinv s"
  shows "cinv (cstep e ev s)"
proof -
  obtain t n mem where ev: "ev = (t, n, mem)"
    by (cases ev)
  from assms have len: "length (data_array s) = nat MAX_DATA"
    and lo: "0 \<le> data_index s" and hi: "data_index s \<le> MAX_DATA" and nub: "\<not> ub s"
    and li: "lock_inv s" and ri: "room_inv s"
    by (simp_all add: cinv_def)
  show ?thesis
  proof (cases "t < length (cpcs s)")
    case False
    then show ?thesis using assms by (simp add: cstep_def ev)
  next
    case True
    from li True have own: "holds_lock (cpcs s ! t) \<Longrightarrow> array_mutex s = Some t"
      by (simp add: lock_inv_def)
    from ri True have room: "may_insert (cpcs s ! t) \<Longrightarrow> data_index s < MAX_DATA"
      by (simp add: room_inv_def)
    let ?s' = "cstep e ev s"
    show ?thesis
    proof (cases "cpcs s ! t")
      case C_lock
      show ?thesis
      proof (cases "array_mutex s = None")
        case f: False
        then obtain y where "array_mutex s = Some y" by blast
        with C_lock True have "?s' = s" by (simp add: cstep_def ev)
        with assms show ?thesis by simp
      next
        case n: True
        with C_lock True have s': "?s' = cgoto t C_check (s\<lparr>array_mutex := Some t\<rparr>)"
          by (simp add: cstep_def ev)
        have "lock_inv ?s'"
          by (rule lock_invI [OF li True, of _ C_check]) (simp_all add: s' cgoto_def n)
        moreover have "room_inv ?s'"
          by (rule room_invI [OF ri True, of _ C_check]) (simp_all add: s' cgoto_def)
        ultimately show ?thesis using len lo hi nub
          by (simp add: cinv_def s' cgoto_def)
      qed
    next
      case C_check
      with own have m: "array_mutex s = Some t" by simp
      from C_check True have s': "?s' = (if data_index s \<ge> MAX_DATA
          then cgoto t C_unlock_break s else cgoto t C_recv s)"
        by (simp add: cstep_def ev)
      have "lock_inv ?s'"
        by (rule lock_invI [OF li True, of _ "if data_index s \<ge> MAX_DATA then C_unlock_break else C_recv"])
          (simp_all add: s' cgoto_def m)
      moreover have "room_inv ?s'"
        by (rule room_invI [OF ri True, of _ "if data_index s \<ge> MAX_DATA then C_unlock_break else C_recv"])
          (simp_all add: s' cgoto_def)
      ultimately show ?thesis using len lo hi nub
        by (simp add: cinv_def s' cgoto_def)
    next
      case C_recv
      with own room have m: "array_mutex s = Some t" and d: "data_index s < MAX_DATA"
        by simp_all
      define p where "p = (if n = 4 then C_insert (load_u32 e mem) else C_unlock_break)"
      from C_recv True have pcs': "cpcs ?s' = (cpcs s)[t := p]"
        and rest: "array_mutex ?s' = array_mutex s" "data_index ?s' = data_index s"
          "data_array ?s' = data_array s" "ub ?s' = ub s"
        by (simp_all add: cstep_def ev cgoto_def p_def Let_def)
      have "lock_inv ?s'"
        by (rule lock_invI [OF li True pcs']) (simp_all add: rest m)
      moreover have "room_inv ?s'"
        by (rule room_invI [OF ri True pcs']) (simp_all add: rest d)
      ultimately show ?thesis using len lo hi nub
        by (simp add: cinv_def rest)
    next
      case (C_insert x)
      with own room have m: "array_mutex s = Some t" and d: "data_index s < MAX_DATA"
        by simp_all
      from C_insert True lo d have pcs': "cpcs ?s' = (cpcs s)[t := C_print (to_int (ntohl e x))]"
        and rest: "array_mutex ?s' = array_mutex s" "data_index ?s' = data_index s + 1"
          "length (data_array ?s') = length (data_array s)" "ub ?s' = ub s"
        by (simp_all add: cstep_def ev cgoto_def Let_def)
      have "lock_inv ?s'"
        by (rule lock_invI [OF li True pcs']) (simp_all add: rest m)
      moreover have "room_inv ?s'"
        by (rule room_invI [OF ri True pcs']) (simp_all add: rest li m)
      ultimately show ?thesis using len lo d nub
        by (simp add: cinv_def rest)
    next
      case (C_print v)
      with own have m: "array_mutex s = Some t" by simp
      from C_print True have pcs': "cpcs ?s' = (cpcs s)[t := C_unlock]"
        and rest: "array_mutex ?s' = array_mutex s" "data_index ?s' = data_index s"
          "data_array ?s' = data_array s" "ub ?s' = ub s"
        by (simp_all add: cstep_def ev cgoto_def)
      have "lock_inv ?s'"
        by (rule lock_invI [OF li True pcs']) (simp_all add: rest m)
      moreover have "room_inv ?s'"
        by (rule room_invI [OF ri True pcs']) (simp_all add: rest)
      ultimately show ?thesis using len lo hi nub
        by (simp add: cinv_def rest)
    next
      case C_unlock
      with own have m: "array_mutex s = Some t" by simp
      from C_unlock True have pcs': "cpcs ?s' = (cpcs s)[t := C_lock]"
        and rest: "array_mutex ?s' = None" "data_index ?s' = data_index s"
          "data_array ?s' = data_array s" "ub ?s' = ub s"
        by (simp_all add: cstep_def ev cgoto_def)
      have "lock_inv ?s'"
        by (rule lock_invI [OF li True pcs']) (simp_all add: rest m)
      moreover have "room_inv ?s'"
        by (rule room_invI [OF ri True pcs']) (simp_all add: rest)
      ultimately show ?thesis using len lo hi nub
        by (simp add: cinv_def rest)
    next
      case C_unlock_break
      with own have m: "array_mutex s = Some t" by simp
      from C_unlock_break True have pcs': "cpcs ?s' = (cpcs s)[t := C_done]"
        and rest: "array_mutex ?s' = None" "data_index ?s' = data_index s"
          "data_array ?s' = data_array s" "ub ?s' = ub s"
        by (simp_all add: cstep_def ev cgoto_def)
      have "lock_inv ?s'"
        by (rule lock_invI [OF li True pcs']) (simp_all add: rest m)
      moreover have "room_inv ?s'"
        by (rule room_invI [OF ri True pcs']) (simp_all add: rest)
      ultimately show ?thesis using len lo hi nub
        by (simp add: cinv_def rest)
    next
      case C_done
      with True assms show ?thesis by (simp add: cstep_def ev)
    qed
  qed
qed

lemma crun_Nil: "crun e [] s = s"
  by (simp add: crun_def)

lemma crun_Cons: "crun e (ev # evs) s = crun e evs (cstep e ev s)"
  by (simp add: crun_def)

lemma crun_append: "crun e (xs @ ys) s = crun e ys (crun e xs s)"
  by (simp add: crun_def)

lemma cinv_crun: "cinv s \<Longrightarrow> cinv (crun e evs s)"
  by (induction evs arbitrary: s) (simp_all add: crun_Nil crun_Cons cinv_cstep)

lemma cstep_frame:
  assumes "\<not> is_insert (cpcs s ! t)"
  shows "data_array (cstep e (t, n, mem) s) = data_array s
    \<and> data_index (cstep e (t, n, mem) s) = data_index s"
proof (cases "t < length (cpcs s)")
  case False
  then show ?thesis by (simp add: cstep_def)
next
  case True
  with assms show ?thesis
    by (cases "cpcs s ! t") (simp_all add: cstep_def cgoto_def Let_def)
qed

lemma cstep_insert:
  assumes "cinv s" "t < length (cpcs s)" "cpcs s ! t = C_insert x"
  shows "data_array (cstep e (t, n, mem) s) = (data_array s)[nat (data_index s) := to_int (ntohl e x)]
    \<and> data_index (cstep e (t, n, mem) s) = data_index s + 1 \<and> data_index s < MAX_DATA"
proof -
  from assms have "data_index s < MAX_DATA" "0 \<le> data_index s"
    by (auto simp: cinv_def room_inv_def)
  with assms(2,3) show ?thesis
    by (simp add: cstep_def cgoto_def Let_def)
qed

lemma cstep_write:
  assumes "cinv s"
  shows "(data_array (cstep e ev s) = data_array s \<and> data_index (cstep e ev s) = data_index s)
    \<or> (\<exists>v. data_array (cstep e ev s) = (data_array s)[nat (data_index s) := v]
         \<and> data_index (cstep e ev s) = data_index s + 1 \<and> data_index s < MAX_DATA)"
proof -
  obtain t n mem where ev: "ev = (t, n, mem)"
    by (cases ev)
  show ?thesis
  proof (cases "t < length (cpcs s) \<and> is_insert (cpcs s ! t)")
    case True
    then obtain x where "t < length (cpcs s)" "cpcs s ! t = C_insert x"
      by (cases "cpcs s ! t") simp_all
    from cstep_insert [OF assms this] show ?thesis
      unfolding ev by blast
  next
    case False
    show ?thesis
    proof (cases "t < length (cpcs s)")
      case True
      with False have "\<not> is_insert (cpcs s ! t)" by blast
      from cstep_frame [OF this] show ?thesis unfolding ev by blast
    next
      case f: False
      then show ?thesis by (simp add: cstep_def ev)
    qed
  qed
qed

lemma cstep_full:
  assumes "cinv s" "data_index s = MAX_DATA"
  shows "data_array (cstep e ev s) = data_array s \<and> data_index (cstep e ev s) = MAX_DATA"
  using cstep_write [OF assms(1), of e ev] assms(2) by auto

lemma crun_full:
  assumes "cinv s" "data_index s = MAX_DATA"
  shows "data_array (crun e evs s) = data_array s \<and> data_index (crun e evs s) = MAX_DATA"
  using assms
proof (induction evs arbitrary: s)
  case Nil
  then show ?case by (simp add: crun_Nil)
next
  case (Cons ev evs)
  from Cons.prems have "cinv (cstep e ev s)" "data_index (cstep e ev s) = MAX_DATA"
    "data_array (cstep e ev s) = data_array s"
    by (simp_all add: cinv_cstep cstep_full)
  with Cons.IH [of "cstep e ev s"] show ?case
    by (simp add: crun_Cons)
qed

text \<open>
  Claim C1. In every state of every run of the consumer's workers the write index
  satisfies \<open>0 \<le> data_index \<le> MAX_DATA\<close> (and no store has gone outside
  \<open>data_array\<close>); a statement of a worker either leaves the buffer and the index as they
  are or writes one value at \<open>data_array[data_index]\<close> and increments the index by
  exactly one; and once \<open>data_index = MAX_DATA\<close> no continuation of the run writes to
  the buffer or moves the index.
\<close>

theorem consumer_write_index_invariant:
  assumes "s = crun e evs (cinit k)"
  shows "0 \<le> data_index s \<and> data_index s \<le> MAX_DATA \<and> \<not> ub s
    \<and> (\<forall>ev. (data_array (cstep e ev s) = data_array s \<and> data_index (cstep e ev s) = data_index s)
          \<or> (\<exists>v. data_array (cstep e ev s) = (data_array s)[nat (data_index s) := v]
               \<and> data_index (cstep e ev s) = data_index s + 1 \<and> data_index s < MAX_DATA))
    \<and> (data_index s = MAX_DATA \<longrightarrow>
          (\<forall>evs'. data_array (crun e evs' s) = data_array s
             \<and> data_index (crun e evs' s) = MAX_DATA))"
proof -
  from assms have inv: "cinv s"
    by (simp add: cinv_crun cinv_cinit)
  then have "0 \<le> data_index s \<and> data_index s \<le> MAX_DATA \<and> \<not> ub s"
    by (simp add: cinv_def)
  moreover from inv have "\<forall>ev. (data_array (cstep e ev s) = data_array s \<and> data_index (cstep e ev s) = data_index s)
          \<or> (\<exists>v. data_array (cstep e ev s) = (data_array s)[nat (data_index s) := v]
               \<and> data_index (cstep e ev s) = data_index s + 1 \<and> data_index s < MAX_DATA)"
    using cstep_write [of s e] by blast
  moreover from inv have "data_index s = MAX_DATA \<longrightarrow>
          (\<forall>evs'. data_array (crun e evs' s) = data_array s
             \<and> data_index (crun e evs' s) = MAX_DATA)"
    using crun_full [of s e] by blast
  ultimately show ?thesis by blast
qed


section \<open>Iterations of a consumer worker\<close>

lemma cstep_lock:
  "\<lbrakk>t < length (cpcs s); cpcs s ! t = C_lock; array_mutex s = None\<rbrakk>
   \<Longrightarrow> cstep e (t, n, mem) s = s\<lparr>array_mutex := Some t, cpcs := (cpcs s)[t := C_check]\<rparr>"
  by (simp add: cstep_def cgoto_def)

lemma cstep_check:
  "\<lbrakk>t < length (cpcs s); cpcs s ! t = C_check\<rbrakk>
   \<Longrightarrow> cstep e (t, n, mem) s =
       s\<lparr>cpcs := (cpcs s)[t := if data_index s \<ge> MAX_DATA then C_unlock_break else C_recv]\<rparr>"
  by (simp add: cstep_def cgoto_def)

lemma cstep_recv:
  "\<lbrakk>t < length (cpcs s); cpcs s ! t = C_recv\<rbrakk>
   \<Longrightarrow> cstep e (t, n, mem) s =
       s\<lparr>recvd := recvd s @ [(n, mem)],
         cerr := cerr s @ (if n = 0 \<or> n = 4 then [] else if n < 0 then [''recv failed'']
                           else [''Partial read from socket'']),
         cpcs := (cpcs s)[t := if n = 4 then C_insert (load_u32 e mem) else C_unlock_break]\<rparr>"
  by (simp add: cstep_def cgoto_def Let_def)

lemma cstep_insert_eq:
  "\<lbrakk>t < length (cpcs s); cpcs s ! t = C_insert x; 0 \<le> data_index s; data_index s < MAX_DATA\<rbrakk>
   \<Longrightarrow> cstep e (t, n, mem) s =
       s\<lparr>data_array := (data_array s)[nat (data_index s) := to_int (ntohl e x)],
         data_index := data_index s + 1,
         cpcs := (cpcs s)[t := C_print (to_int (ntohl e x))]\<rparr>"
  by (simp add: cstep_def cgoto_def Let_def)

lemma cstep_print:
  "\<lbrakk>t < length (cpcs s); cpcs s ! t = C_print v\<rbrakk>
   \<Longrightarrow> cstep e (t, n, mem) s = s\<lparr>cout := cout s @ [(t, v)], cpcs := (cpcs s)[t := C_unlock]\<rparr>"
  by (simp add: cstep_def cgoto_def)

lemma cstep_unlock:
  "\<lbrakk>t < length (cpcs s); cpcs s ! t = C_unlock\<rbrakk>
   \<Longrightarrow> cstep e (t, n, mem) s = s\<lparr>array_mutex := None, cpcs := (cpcs s)[t := C_lock]\<rparr>"
  by (simp add: cstep_def cgoto_def)

lemma cstep_unlock_break:
  "\<lbrakk>t < length (cpcs s); cpcs s ! t = C_unlock_break\<rbrakk>
   \<Longrightarrow> cstep e (t, n, mem) s = s\<lparr>array_mutex := None, cpcs := (cpcs s)[t := C_done]\<rparr>"
  by (simp add: cstep_def cgoto_def)

lemmas cstep_at = cstep_lock cstep_check cstep_recv cstep_insert_eq cstep_print cstep_unlock
  cstep_unlock_break

lemma decode_load: "to_int (ntohl e (load_u32 e mem)) = decode e mem"
  by (simp add: decode_def)

text \<open>From the \<open>recv\<close> on: the three ways out of the loop, and the insertion.\<close>

lemma crun_recv_exit:
  assumes "t < length (cpcs s)" "cpcs s ! t = C_recv" "n \<noteq> 4"
  shows "crun e [(t, n, mem), (t, n1, m1)] s =
     s\<lparr>recvd := recvd s @ [(n, mem)],
       cerr := cerr s @ (if n = 0 then [] else if n < 0 then [''recv failed'']
                         else [''Partial read from socket'']),
       array_mutex := None, cpcs := (cpcs s)[t := C_done]\<rparr>"
  using assms by (simp add: crun_Cons crun_Nil cstep_at)

lemma crun_recv_insert:
  assumes "t < length (cpcs s)" "cpcs s ! t = C_recv" "0 \<le> data_index s" "data_index s < MAX_DATA"
  shows "crun e [(t, 4, mem), (t, n1, m1), (t, n2, m2), (t, n3, m3)] s =
     s\<lparr>recvd := recvd s @ [(4, mem)],
       data_array := (data_array s)[nat (data_index s) := decode e mem],
       data_index := data_index s + 1,
       cout := cout s @ [(t, decode e mem)],
       array_mutex := None, cpcs := (cpcs s)[t := C_lock]\<rparr>"
  using assms by (simp add: crun_Cons crun_Nil cstep_at decode_load)

lemma crun_insert_events:
  assumes "t < length (cpcs s)" "cpcs s ! t = C_lock" "array_mutex s = None"
    "0 \<le> data_index s" "data_index s < MAX_DATA"
  shows "crun e (insert_events t mem) s =
     s\<lparr>recvd := recvd s @ [(4, mem)],
       data_array := (data_array s)[nat (data_index s) := decode e mem],
       data_index := data_index s + 1,
       cout := cout s @ [(t, decode e mem)],
       array_mutex := None, cpcs := (cpcs s)[t := C_lock]\<rparr>"
proof -
  let ?s2 = "s\<lparr>array_mutex := Some t, cpcs := (cpcs s)[t := C_recv]\<rparr>"
  have "crun e (insert_events t mem) s
      = crun e [(t, 4, mem), (t, 4, mem), (t, 4, mem), (t, 4, mem)] (crun e [(t, 4, mem), (t, 4, mem)] s)"
    by (simp add: insert_events_def numeral_eq_Suc crun_Cons crun_Nil)
  also from assms have "crun e [(t, 4, mem), (t, 4, mem)] s = ?s2"
    by (simp add: crun_Cons crun_Nil cstep_at)
  also from assms have "crun e [(t, 4, mem), (t, 4, mem), (t, 4, mem), (t, 4, mem)] ?s2 =
     ?s2\<lparr>recvd := recvd ?s2 @ [(4, mem)],
       data_array := (data_array ?s2)[nat (data_index ?s2) := decode e mem],
       data_index := data_index ?s2 + 1,
       cout := cout ?s2 @ [(t, decode e mem)],
       array_mutex := None, cpcs := (cpcs ?s2)[t := C_lock]\<rparr>"
    by (intro crun_recv_insert) simp_all
  finally show ?thesis by simp
qed

lemma crun_fill:
  assumes "t < length (cpcs s)" "cpcs s ! t = C_lock" "array_mutex s = None"
    "0 \<le> data_index s" "data_index s + int j \<le> MAX_DATA"
  shows "data_index (crun e (concat (replicate j (insert_events t mem))) s) = data_index s + int j"
  using assms
proof (induction j arbitrary: s)
  case 0
  then show ?case by (simp add: crun_Nil)
next
  case (Suc j)
  let ?s' = "crun e (insert_events t mem) s"
  from Suc.prems have s': "?s' = s\<lparr>recvd := recvd s @ [(4, mem)],
       data_array := (data_array s)[nat (data_index s) := decode e mem],
       data_index := data_index s + 1,
       cout := cout s @ [(t, decode e mem)],
       array_mutex := None, cpcs := (cpcs s)[t := C_lock]\<rparr>"
    by (intro crun_insert_events) simp_all
  have "data_index (crun e (concat (replicate j (insert_events t mem))) ?s') = data_index ?s' + int j"
    using Suc.prems by (intro Suc.IH) (simp_all add: s')
  then show ?case
    by (simp add: crun_append s')
qed

lemma crun_fill_events: "data_index (crun e fill_events (cinit 1)) = MAX_DATA"
  using crun_fill [of 0 "cinit 1" 100 e "(0, 0, 0, 7)"]
  by (simp add: fill_events_def cinit_def MAX_DATA_def)

theorem consumer_write_index_invariant_witness:
  "data_index (crun Little_endian fill_events (cinit 1)) = MAX_DATA
   \<and> data_array (crun Little_endian (insert_events 0 (0, 0, 0, 9)) (crun Little_endian fill_events (cinit 1)))
       = data_array (crun Little_endian fill_events (cinit 1))
   \<and> \<not> ub (crun Little_endian fill_events (cinit 1))"
  using consumer_write_index_invariant [of "crun Little_endian fill_events (cinit 1)"
      Little_endian fill_events 1]
    crun_fill_events [of Little_endian]
  by simp


section \<open>What the buffer holds\<close>

lemma data_inv_cinit: "data_inv e (cinit k)"
  by (simp add: data_inv_def cinit_def complete_frames_def cpending_def)

lemma complete_frames_snoc:
  "complete_frames (r @ [(n, mem)]) = complete_frames r @ (if n = 4 then [mem] else [])"
  by (simp add: complete_frames_def)

lemma take_insert:
  assumes "0 \<le> i" "nat i < length xs"
  shows "take (nat (i + 1)) (xs[nat i := v]) = take (nat i) xs @ [v]"
proof -
  from assms have "nat (i + 1) = Suc (nat i)" by simp
  with assms show ?thesis
    by (simp add: take_Suc_conv_app_nth)
qed

lemma data_inv_cstep:
  assumes "data_inv e s" "cinv s"
  shows "data_inv e (cstep e ev s)"
proof -
  obtain t n mem where ev: "ev = (t, n, mem)"
    by (cases ev)
  from assms(2) have len: "length (data_array s) = nat MAX_DATA" and lo: "0 \<le> data_index s"
    and li: "lock_inv s" and ri: "room_inv s"
    by (simp_all add: cinv_def)
  show ?thesis
  proof (cases "t < length (cpcs s)")
    case False
    then show ?thesis using assms by (simp add: cstep_def ev)
  next
    case True
    from li True have own: "holds_lock (cpcs s ! t) \<Longrightarrow> array_mutex s = Some t"
      by (simp add: lock_inv_def)
    from ri True have room: "may_insert (cpcs s ! t) \<Longrightarrow> data_index s < MAX_DATA"
      by (simp add: room_inv_def)
    show ?thesis
    proof (cases "cpcs s ! t")
      case C_lock
      show ?thesis
      proof (cases "array_mutex s")
        case (Some y)
        with C_lock True have "cstep e ev s = s" by (simp add: cstep_def ev)
        with assms show ?thesis by simp
      next
        case None
        with C_lock True assms(1) show ?thesis
          by (simp add: ev cstep_lock data_inv_def cpending_def)
      qed
    next
      case C_check
      with own have "array_mutex s = Some t" by simp
      with C_check True assms(1) show ?thesis
        by (simp add: ev cstep_check data_inv_def cpending_def)
    next
      case C_recv
      with own have "array_mutex s = Some t" by simp
      with C_recv True assms(1) show ?thesis
        by (simp add: ev cstep_recv data_inv_def cpending_def complete_frames_snoc decode_load)
    next
      case (C_insert x)
      with own room have m: "array_mutex s = Some t" and d: "data_index s < MAX_DATA"
        by simp_all
      from d lo len have "nat (data_index s) < length (data_array s)" by simp
      with C_insert True assms(1) m d lo show ?thesis
        by (simp add: ev cstep_insert_eq data_inv_def cpending_def take_insert)
    next
      case (C_print v)
      with own have "array_mutex s = Some t" by simp
      with C_print True assms(1) show ?thesis
        by (simp add: ev cstep_print data_inv_def cpending_def)
    next
      case C_unlock
      with own have "array_mutex s = Some t" by simp
      with C_unlock True assms(1) show ?thesis
        by (simp add: ev cstep_unlock data_inv_def cpending_def)
    next
      case C_unlock_break
      with own have "array_mutex s = Some t" by simp
      with C_unlock_break True assms(1) show ?thesis
        by (simp add: ev cstep_unlock_break data_inv_def cpending_def)
    next
      case C_done
      with True assms show ?thesis by (simp add: cstep_def ev)
    qed
  qed
qed

lemma data_inv_crun: "data_inv e s \<Longrightarrow> cinv s \<Longrightarrow> data_inv e (crun e evs s)"
  by (induction evs arbitrary: s) (simp_all add: crun_Nil crun_Cons cinv_cstep data_inv_cstep)

lemma cpending_length: "length (cpending e s) \<le> 1"
proof (cases "array_mutex s")
  case None
  then show ?thesis by (simp add: cpending_def)
next
  case (Some t)
  then show ?thesis by (cases "cpcs s ! t") (simp_all add: cpending_def)
qed

lemma occupied_slots:
  assumes "data_inv e s" "cinv s"
  shows "take (nat (data_index s)) (data_array s)
      = map (decode e) (take (nat (data_index s)) (complete_frames (recvd s)))"
proof -
  from assms(2) have "nat (data_index s) \<le> length (data_array s)"
    by (auto simp: cinv_def)
  then have "length (take (nat (data_index s)) (data_array s)) = nat (data_index s)"
    by simp
  with assms(1) show ?thesis
    unfolding data_inv_def
    by (metis append_eq_conv_conj take_map)
qed

lemma decode_be32: "decode e (a, b, c, d) = to_int (be32 a b c d)"
  by (simp add: decode_def ntohl_load)

lemma crun_recv_ready:
  "crun e recv_ready (cinit 1) = (cinit 1)\<lparr>array_mutex := Some 0, cpcs := [C_recv]\<rparr>"
  by (simp add: recv_ready_def crun_Cons crun_Nil cstep_def cgoto_def cinit_def MAX_DATA_def)

text \<open>
  Claim C4. A worker that is at its \<open>recv\<close> (in any state of any run) goes on as
  follows. If the call returns 0, the worker unlocks and returns without writing to
  \<open>stderr\<close>; if it returns a negative value, or a positive value other than 4, the
  worker logs \<open>recv failed\<close>, respectively \<open>Partial read from socket\<close>, unlocks and
  returns; in these three cases neither the buffer, the index nor \<open>stdout\<close> changes.
  If it returns 4, the worker decodes the four bytes as a big-endian integer
  (whatever the host's byte order), stores the value at \<open>data_array[data_index]\<close>,
  which lies inside the array, increments the index, prints the status line with its
  identity and the value, unlocks and starts the next iteration.
\<close>

theorem consumer_recv_outcomes:
  assumes "s = crun e evs (cinit k)" "t < length (cpcs s)" "cpcs s ! t = C_recv"
  shows "(n = 0 \<longrightarrow> crun e [(t, n, mem), (t, n1, m1)] s =
            s\<lparr>recvd := recvd s @ [(n, mem)], array_mutex := None, cpcs := (cpcs s)[t := C_done]\<rparr>)
    \<and> (n < 0 \<longrightarrow> crun e [(t, n, mem), (t, n1, m1)] s =
            s\<lparr>recvd := recvd s @ [(n, mem)], cerr := cerr s @ [''recv failed''],
              array_mutex := None, cpcs := (cpcs s)[t := C_done]\<rparr>)
    \<and> (0 < n \<and> n \<noteq> 4 \<longrightarrow> crun e [(t, n, mem), (t, n1, m1)] s =
            s\<lparr>recvd := recvd s @ [(n, mem)], cerr := cerr s @ [''Partial read from socket''],
              array_mutex := None, cpcs := (cpcs s)[t := C_done]\<rparr>)
    \<and> (n = 4 \<longrightarrow> crun e [(t, n, mem), (t, n1, m1), (t, n2, m2), (t, n3, m3)] s =
            s\<lparr>recvd := recvd s @ [(n, mem)],
              data_array := (data_array s)[nat (data_index s) := decode e mem],
              data_index := data_index s + 1,
              cout := cout s @ [(t, decode e mem)],
              array_mutex := None, cpcs := (cpcs s)[t := C_lock]\<rparr>
          \<and> 0 \<le> data_index s \<and> nat (data_index s) < length (data_array s)
          \<and> decode e mem = (case mem of (a, b, c, d) \<Rightarrow> to_int (be32 a b c d)))"
proof -
  from assms(1) have inv: "cinv s"
    by (simp add: cinv_crun cinv_cinit)
  with assms(2,3) have d: "0 \<le> data_index s" "data_index s < MAX_DATA"
    "nat (data_index s) < length (data_array s)"
    by (auto simp: cinv_def room_inv_def)
  note x = crun_recv_exit [OF assms(2,3), of _ e mem n1 m1]
  have "n = 0 \<longrightarrow> crun e [(t, n, mem), (t, n1, m1)] s =
            s\<lparr>recvd := recvd s @ [(n, mem)], array_mutex := None, cpcs := (cpcs s)[t := C_done]\<rparr>"
    using x [of 0] by simp
  moreover have "n < 0 \<longrightarrow> crun e [(t, n, mem), (t, n1, m1)] s =
            s\<lparr>recvd := recvd s @ [(n, mem)], cerr := cerr s @ [''recv failed''],
              array_mutex := None, cpcs := (cpcs s)[t := C_done]\<rparr>"
    using x [of n] by auto
  moreover have "0 < n \<and> n \<noteq> 4 \<longrightarrow> crun e [(t, n, mem), (t, n1, m1)] s =
            s\<lparr>recvd := recvd s @ [(n, mem)], cerr := cerr s @ [''Partial read from socket''],
              array_mutex := None, cpcs := (cpcs s)[t := C_done]\<rparr>"
    using x [of n] by auto
  moreover have "crun e [(t, 4, mem), (t, n1, m1), (t, n2, m2), (t, n3, m3)] s =
     s\<lparr>recvd := recvd s @ [(4, mem)],
       data_array := (data_array s)[nat (data_index s) := decode e mem],
       data_index := data_index s + 1,
       cout := cout s @ [(t, decode e mem)],
       array_mutex := None, cpcs := (cpcs s)[t := C_lock]\<rparr>"
    by (rule crun_recv_insert [OF assms(2,3) d(1,2)])
  moreover have "decode e mem = (case mem of (a, b, c, d) \<Rightarrow> to_int (be32 a b c d))"
    by (cases mem) (simp add: decode_be32)
  ultimately show ?thesis using d by simp
qed

theorem consumer_recv_outcomes_witness:
  "cpcs (crun Little_endian recv_ready (cinit 1)) ! 0 = C_recv
   \<and> cerr (crun Little_endian [(0, 0, (0, 0, 0, 0)), (0, 0, (0, 0, 0, 0))]
        (crun Little_endian recv_ready (cinit 1))) = []
   \<and> cerr (crun Little_endian [(0, - 1, (0, 0, 0, 0)), (0, 0, (0, 0, 0, 0))]
        (crun Little_endian recv_ready (cinit 1))) = [''recv failed'']
   \<and> cerr (crun Little_endian [(0, 3, (0, 0, 0, 0)), (0, 0, (0, 0, 0, 0))]
        (crun Little_endian recv_ready (cinit 1))) = [''Partial read from socket'']
   \<and> cpcs (crun Little_endian [(0, 3, (0, 0, 0, 0)), (0, 0, (0, 0, 0, 0))]
        (crun Little_endian recv_ready (cinit 1))) = [C_done]
   \<and> cout (crun Little_endian
        [(0, 4, (0, 0, 1, 2)), (0, 0, (0, 0, 0, 0)), (0, 0, (0, 0, 0, 0)), (0, 0, (0, 0, 0, 0))]
        (crun Little_endian recv_ready (cinit 1))) = [(0, 258)]
   \<and> data_index (crun Little_endian
        [(0, 4, (0, 0, 1, 2)), (0, 0, (0, 0, 0, 0)), (0, 0, (0, 0, 0, 0)), (0, 0, (0, 0, 0, 0))]
        (crun Little_endian recv_ready (cinit 1))) = 1"
proof -
  let ?z = "(0, 0, 0, 0) :: bytes4"
  let ?s = "crun Little_endian recv_ready (cinit 1)"
  have s: "?s = (cinit 1)\<lparr>array_mutex := Some 0, cpcs := [C_recv]\<rparr>"
    by (rule crun_recv_ready)
  have h: "0 < length (cpcs ?s)" "cpcs ?s ! 0 = C_recv"
    unfolding s by simp_all
  have v: "to_int (be32 0 0 1 2) = 258"
    by (simp add: to_int_def be32_def)
  note w = consumer_recv_outcomes [OF refl h, of _ _ 0 ?z 0 ?z 0 ?z]
  from w [of 0 ?z] w [of "- 1" ?z] w [of 3 ?z] w [of 4 "(0, 0, 1, 2)"] h(2) v
  show ?thesis
    unfolding s by (simp add: cinit_def)
qed

text \<open>
  Claim C9. On each of the three abnormal outcomes of a worker's \<open>recv\<close> (return value
  0, negative, or positive but not 4) the \<open>recv\<close> statement and the following unlock
  leave \<open>data_array\<close> and \<open>data_index\<close> as they are and the worker returns. In every
  state of every run the occupied slots \<open>data_array[0 .. data_index - 1]\<close> hold, in
  order, the decoded values of the first \<open>data_index\<close> complete 4-byte frames that the
  \<open>recv\<close> calls have delivered.
\<close>

theorem consumer_buffer_holds_complete_frames:
  assumes "s = crun e evs (cinit k)"
  shows "(t < length (cpcs s) \<and> cpcs s ! t = C_recv \<and> n \<noteq> 4 \<longrightarrow>
            data_array (cstep e (t, n, mem) s) = data_array s
          \<and> data_index (cstep e (t, n, mem) s) = data_index s
          \<and> data_array (crun e [(t, n, mem), (t, n1, m1)] s) = data_array s
          \<and> data_index (crun e [(t, n, mem), (t, n1, m1)] s) = data_index s
          \<and> cpcs (crun e [(t, n, mem), (t, n1, m1)] s) ! t = C_done)
    \<and> take (nat (data_index s)) (data_array s)
        = map (decode e) (take (nat (data_index s)) (complete_frames (recvd s)))
    \<and> nat (data_index s) \<le> length (complete_frames (recvd s))"
proof -
  from assms have inv: "cinv s" and dinv: "data_inv e s"
    by (simp_all add: cinv_crun cinv_cinit data_inv_crun data_inv_cinit)
  have "t < length (cpcs s) \<and> cpcs s ! t = C_recv \<and> n \<noteq> 4 \<longrightarrow>
            data_array (cstep e (t, n, mem) s) = data_array s
          \<and> data_index (cstep e (t, n, mem) s) = data_index s
          \<and> data_array (crun e [(t, n, mem), (t, n1, m1)] s) = data_array s
          \<and> data_index (crun e [(t, n, mem), (t, n1, m1)] s) = data_index s
          \<and> cpcs (crun e [(t, n, mem), (t, n1, m1)] s) ! t = C_done"
    by (simp add: crun_recv_exit cstep_recv)
  moreover have o: "take (nat (data_index s)) (data_array s)
        = map (decode e) (take (nat (data_index s)) (complete_frames (recvd s)))"
    by (rule occupied_slots [OF dinv inv])
  moreover have "nat (data_index s) \<le> length (complete_frames (recvd s))"
  proof -
    from inv have "length (take (nat (data_index s)) (data_array s)) = nat (data_index s)"
      by (auto simp: cinv_def)
    with o show ?thesis
      by (metis length_map length_take min.cobounded1)
  qed
  ultimately show ?thesis by blast
qed

theorem consumer_buffer_holds_complete_frames_witness:
  "cpcs (crun Little_endian recv_ready (cinit 1)) ! 0 = C_recv
   \<and> data_index (crun Little_endian [(0, 3, (9, 9, 9, 0)), (0, 0, (0, 0, 0, 0))]
        (crun Little_endian recv_ready (cinit 1))) = 0
   \<and> data_array (crun Little_endian [(0, 3, (9, 9, 9, 0)), (0, 0, (0, 0, 0, 0))]
        (crun Little_endian recv_ready (cinit 1))) = replicate 100 0"
proof -
  let ?s = "crun Little_endian recv_ready (cinit 1)"
  have s: "?s = (cinit 1)\<lparr>array_mutex := Some 0, cpcs := [C_recv]\<rparr>"
    by (rule crun_recv_ready)
  have h: "0 < length (cpcs ?s)" "cpcs ?s ! 0 = C_recv"
    unfolding s by simp_all
  from consumer_buffer_holds_complete_frames [where e = Little_endian and evs = recv_ready
      and k = 1 and t = 0 and n = 3 and mem = "(9, 9, 9, 0)" and ?n1.0 = 0
      and ?m1.0 = "(0, 0, 0, 0)", OF refl] h
  show ?thesis
    unfolding s by (simp add: cinit_def MAX_DATA_def)
qed


section \<open>Invariants of the producer's pool\<close>

lemma pinv_pinit: "pinv (pinit src gs k)"
  by (simp add: pinv_def plock_inv_def proom_inv_def pinit_def pstart_def MAX_DATA_def)

lemma may_read_pholds: "may_read p \<Longrightarrow> pholds p"
  by (cases p) simp_all

lemma plock_invI:
  assumes "plock_inv s" "t < length (ppcs s)" "ppcs s' = (ppcs s)[t := p]"
    "pholds p \<longrightarrow> file_mutex s' = Some t"
    "file_mutex s' = file_mutex s \<or> file_mutex s = None \<or> file_mutex s = Some t"
  shows "plock_inv s'"
  unfolding plock_inv_def
proof (intro allI impI)
  fix u
  assume u: "u < length (ppcs s')" and h: "pholds (ppcs s' ! u)"
  show "file_mutex s' = Some u"
  proof (cases "u = t")
    case True
    with assms(2,3,4) h show ?thesis by simp
  next
    case False
    with u h assms(3) have "u < length (ppcs s)" "pholds (ppcs s ! u)"
      by simp_all
    with assms(1) have "file_mutex s = Some u" by (simp add: plock_inv_def)
    with assms(5) False show ?thesis by auto
  qed
qed

lemma proom_invI:
  assumes "proom_inv s" "t < length (ppcs s)" "ppcs s' = (ppcs s)[t := p]"
    "may_read p \<longrightarrow> numbers_read s' < MAX_DATA"
    "numbers_read s' = numbers_read s \<or> (plock_inv s \<and> file_mutex s = Some t)"
  shows "proom_inv s'"
  unfolding proom_inv_def
proof (intro allI impI)
  fix u
  assume u: "u < length (ppcs s')" and h: "may_read (ppcs s' ! u)"
  show "numbers_read s' < MAX_DATA"
  proof (cases "u = t")
    case True
    with assms(2,3,4) h show ?thesis by simp
  next
    case False
    with u h assms(3) have hu: "u < length (ppcs s)" "may_read (ppcs s ! u)"
      by simp_all
    with assms(1) have d: "numbers_read s < MAX_DATA" by (simp add: proom_inv_def)
    from assms(5) show ?thesis
    proof
      assume "numbers_read s' = numbers_read s"
      with d show ?thesis by simp
    next
      assume l: "plock_inv s \<and> file_mutex s = Some t"
      from hu have "pholds (ppcs s ! u)" by (simp add: may_read_pholds)
      with l hu(1) have "file_mutex s = Some u" unfolding plock_inv_def by blast
      with l False show ?thesis by simp
    qed
  qed
qed

text \<open>The statements of a producer worker, one by one.\<close>

lemma pstep_lock:
  "\<lbrakk>\<not> killed s; t < length (ppcs s); ppcs s ! t = P_lock; file_mutex s = None\<rbrakk>
   \<Longrightarrow> pstep e (t, r) s = s\<lparr>file_mutex := Some t, ppcs := (ppcs s)[t := P_check]\<rparr>"
  by (simp add: pstep_def pgoto_def)

lemma pstep_lock_blocked:
  "\<lbrakk>ppcs s ! t = P_lock; file_mutex s = Some u\<rbrakk> \<Longrightarrow> pstep e (t, r) s = s"
  by (simp add: pstep_def pgoto_def)

lemma pstep_check:
  "\<lbrakk>\<not> killed s; t < length (ppcs s); ppcs s ! t = P_check\<rbrakk>
   \<Longrightarrow> pstep e (t, r) s =
       s\<lparr>ppcs := (ppcs s)[t := if numbers_read s \<ge> MAX_DATA then P_unlock_break else P_scan]\<rparr>"
  by (simp add: pstep_def pgoto_def)

lemma pstep_scan_sign:
  "\<lbrakk>\<not> killed s; t < length (ppcs s); ppcs s ! t = P_scan; sign_next (lone_signs s)\<rbrakk>
   \<Longrightarrow> pstep e (t, r) s =
       s\<lparr>lone_signs := skip_sign (lone_signs s), ppcs := (ppcs s)[t := P_unlock_break]\<rparr>"
  by (simp add: pstep_def pgoto_def)

lemma pstep_scan_eof:
  "\<lbrakk>\<not> killed s; t < length (ppcs s); ppcs s ! t = P_scan; \<not> sign_next (lone_signs s);
    input_file s = []\<rbrakk>
   \<Longrightarrow> pstep e (t, r) s = s\<lparr>ppcs := (ppcs s)[t := P_unlock_break]\<rparr>"
  by (simp add: pstep_def pgoto_def)

lemma pstep_scan:
  "\<lbrakk>\<not> killed s; t < length (ppcs s); ppcs s ! t = P_scan; \<not> sign_next (lone_signs s);
    input_file s = v # vs\<rbrakk>
   \<Longrightarrow> pstep e (t, r) s =
       s\<lparr>input_file := vs, lone_signs := tl (lone_signs s), ppcs := (ppcs s)[t := P_inc v]\<rparr>"
  by (simp add: pstep_def pgoto_def)

lemma pstep_scan_fails:
  "\<lbrakk>\<not> killed s; t < length (ppcs s); ppcs s ! t = P_scan;
    sign_next (lone_signs s) \<or> input_file s = []\<rbrakk>
   \<Longrightarrow> pstep e (t, r) s =
       s\<lparr>lone_signs := skip_sign (lone_signs s), ppcs := (ppcs s)[t := P_unlock_break]\<rparr>"
  by (cases "lone_signs s" rule: sign_next.cases) (simp_all add: pstep_def pgoto_def)

lemma sign_free_next: "sign_free gs \<Longrightarrow> \<not> sign_next gs"
  by (cases gs rule: sign_next.cases) (simp_all add: sign_free_def)

lemma sign_free_tl: "sign_free gs \<Longrightarrow> sign_free (tl gs)"
  by (cases gs) (simp_all add: sign_free_def)

lemma pstep_inc:
  "\<lbrakk>\<not> killed s; t < length (ppcs s); ppcs s ! t = P_inc v\<rbrakk>
   \<Longrightarrow> pstep e (t, r) s =
       s\<lparr>numbers_read := numbers_read s + 1, ppcs := (ppcs s)[t := P_print v]\<rparr>"
  by (simp add: pstep_def pgoto_def)

lemma pstep_print:
  "\<lbrakk>\<not> killed s; t < length (ppcs s); ppcs s ! t = P_print v\<rbrakk>
   \<Longrightarrow> pstep e (t, r) s = s\<lparr>pout := pout s @ [(t, v)], ppcs := (ppcs s)[t := P_unlock v]\<rparr>"
  by (simp add: pstep_def pgoto_def)

lemma pstep_unlock:
  "\<lbrakk>\<not> killed s; t < length (ppcs s); ppcs s ! t = P_unlock v\<rbrakk>
   \<Longrightarrow> pstep e (t, r) s = s\<lparr>file_mutex := None, ppcs := (ppcs s)[t := P_send v]\<rparr>"
  by (simp add: pstep_def pgoto_def)

lemma pstep_unlock_break:
  "\<lbrakk>\<not> killed s; t < length (ppcs s); ppcs s ! t = P_unlock_break\<rbrakk>
   \<Longrightarrow> pstep e (t, r) s = s\<lparr>file_mutex := None, ppcs := (ppcs s)[t := P_done]\<rparr>"
  by (simp add: pstep_def pgoto_def)

lemma pstep_send:
  "\<lbrakk>\<not> killed s; t < length (ppcs s); ppcs s ! t = P_send v\<rbrakk>
   \<Longrightarrow> pstep e (t, Send_ret n) s =
       s\<lparr>sent := sent s @ [(encode e v, n)],
         perr := perr s @ (if n \<noteq> 4 then [''send failed''] else []),
         ppcs := (ppcs s)[t := if n \<noteq> 4 then P_done else P_lock]\<rparr>"
  by (simp add: pstep_def pgoto_def send_returns_def)

lemma pstep_send_closed:
  "\<lbrakk>\<not> killed s; t < length (ppcs s); ppcs s ! t = P_send v; sigpipe s = SIG_IGN\<rbrakk>
   \<Longrightarrow> pstep e (t, Send_peer_closed) s =
       s\<lparr>sent := sent s @ [(encode e v, - 1)], perr := perr s @ [''send failed''],
         ppcs := (ppcs s)[t := P_done]\<rparr>"
  by (simp add: pstep_def pgoto_def send_returns_def)

lemma pstep_done: "ppcs s ! t = P_done \<Longrightarrow> pstep e (t, r) s = s"
  by (simp add: pstep_def)

lemma pstep_absent: "length (ppcs s) \<le> t \<Longrightarrow> pstep e (t, r) s = s"
  by (simp add: pstep_def)

lemma pstep_killed: "killed s \<Longrightarrow> pstep e ev s = s"
  by (cases ev) (simp add: pstep_def)

lemmas pstep_at = pstep_lock pstep_check pstep_scan_sign pstep_scan_eof pstep_scan pstep_inc
  pstep_print
  pstep_unlock pstep_unlock_break pstep_send pstep_send_closed

lemma pstep_send_ign:
  assumes "\<not> killed s" "t < length (ppcs s)" "ppcs s ! t = P_send v" "sigpipe s = SIG_IGN"
  shows "pstep e (t, r) s =
       s\<lparr>sent := sent s @ [(encode e v, send_value r)],
         perr := perr s @ (if send_value r \<noteq> 4 then [''send failed''] else []),
         ppcs := (ppcs s)[t := if send_value r \<noteq> 4 then P_done else P_lock]\<rparr>"
  using assms by (cases r) (simp_all add: pstep_send pstep_send_closed)

lemma prun_Nil: "prun e [] s = s"
  by (simp add: prun_def)

lemma prun_Cons: "prun e (ev # evs) s = prun e evs (pstep e ev s)"
  by (simp add: prun_def)

lemma prun_append: "prun e (xs @ ys) s = prun e ys (prun e xs s)"
  by (simp add: prun_def)

lemma pinv_pstep:
  assumes "pinv s"
  shows "pinv (pstep e ev s)"
proof -
  obtain t r where ev: "ev = (t, r)"
    by (cases ev)
  from assms have lo: "0 \<le> numbers_read s" and hi: "numbers_read s \<le> MAX_DATA"
    and ign: "sigpipe s = SIG_IGN" and nk: "\<not> killed s"
    and li: "plock_inv s" and ri: "proom_inv s"
    by (simp_all add: pinv_def)
  let ?s' = "pstep e ev s"
  show ?thesis
  proof (cases "t < length (ppcs s)")
    case False
    then show ?thesis using assms by (simp add: pstep_absent ev)
  next
    case True
    from li True have own: "pholds (ppcs s ! t) \<Longrightarrow> file_mutex s = Some t"
      by (simp add: plock_inv_def)
    from ri True have room: "may_read (ppcs s ! t) \<Longrightarrow> numbers_read s < MAX_DATA"
      by (simp add: proom_inv_def)
    show ?thesis
    proof (cases "ppcs s ! t")
      case P_lock
      show ?thesis
      proof (cases "file_mutex s")
        case (Some u)
        with P_lock assms show ?thesis by (simp add: ev pstep_lock_blocked)
      next
        case None
        with P_lock True nk have s': "?s' = s\<lparr>file_mutex := Some t, ppcs := (ppcs s)[t := P_check]\<rparr>"
          by (simp add: ev pstep_lock)
        have "plock_inv ?s'"
          by (rule plock_invI [OF li True, of _ P_check]) (simp_all add: s' None)
        moreover have "proom_inv ?s'"
          by (rule proom_invI [OF ri True, of _ P_check]) (simp_all add: s')
        ultimately show ?thesis using lo hi ign nk
          by (simp add: pinv_def s')
      qed
    next
      case P_check
      with own have m: "file_mutex s = Some t" by simp
      define p where "p = (if numbers_read s \<ge> MAX_DATA then P_unlock_break else P_scan)"
      from P_check True nk have s': "?s' = s\<lparr>ppcs := (ppcs s)[t := p]\<rparr>"
        by (simp add: ev pstep_check p_def)
      have "plock_inv ?s'"
        by (rule plock_invI [OF li True, of _ p]) (simp_all add: s' m)
      moreover have "proom_inv ?s'"
        by (rule proom_invI [OF ri True, of _ p]) (simp_all add: s' p_def)
      ultimately show ?thesis using lo hi ign nk
        by (simp add: pinv_def s')
    next
      case P_scan
      with own room have m: "file_mutex s = Some t" and d: "numbers_read s < MAX_DATA"
        by simp_all
      obtain p f g where s': "?s' = s\<lparr>input_file := f, lone_signs := g, ppcs := (ppcs s)[t := p]\<rparr>"
      proof (cases "sign_next (lone_signs s)")
        case True
        with P_scan \<open>t < length (ppcs s)\<close> nk
        have "?s' = s\<lparr>input_file := input_file s, lone_signs := skip_sign (lone_signs s),
            ppcs := (ppcs s)[t := P_unlock_break]\<rparr>"
          by (simp add: ev pstep_scan_sign)
        then show ?thesis by (rule that)
      next
        case False
        with P_scan \<open>t < length (ppcs s)\<close> nk
        have "?s' = s\<lparr>input_file := tl (input_file s),
            lone_signs := (if input_file s = [] then lone_signs s else tl (lone_signs s)),
            ppcs := (ppcs s)[t := case input_file s of [] \<Rightarrow> P_unlock_break | v # vs \<Rightarrow> P_inc v]\<rparr>"
          by (cases "input_file s") (simp_all add: ev pstep_scan pstep_scan_eof)
        then show ?thesis by (rule that)
      qed
      have "plock_inv ?s'"
        by (rule plock_invI [OF li True, of _ p]) (simp_all add: s' m)
      moreover have "proom_inv ?s'"
        by (rule proom_invI [OF ri True, of _ p]) (simp_all add: s' d)
      ultimately show ?thesis using lo hi ign nk
        by (simp add: pinv_def s')
    next
      case (P_inc v)
      with own room have m: "file_mutex s = Some t" and d: "numbers_read s < MAX_DATA"
        by simp_all
      from P_inc True nk have s': "?s' = s\<lparr>numbers_read := numbers_read s + 1,
          ppcs := (ppcs s)[t := P_print v]\<rparr>"
        by (simp add: ev pstep_inc)
      have "plock_inv ?s'"
        by (rule plock_invI [OF li True, of _ "P_print v"]) (simp_all add: s' m)
      moreover have "proom_inv ?s'"
        by (rule proom_invI [OF ri True, of _ "P_print v"]) (simp_all add: s' li m)
      ultimately show ?thesis using lo d ign nk
        by (simp add: pinv_def s')
    next
      case (P_print v)
      with own have m: "file_mutex s = Some t" by simp
      from P_print True nk have s': "?s' = s\<lparr>pout := pout s @ [(t, v)],
          ppcs := (ppcs s)[t := P_unlock v]\<rparr>"
        by (simp add: ev pstep_print)
      have "plock_inv ?s'"
        by (rule plock_invI [OF li True, of _ "P_unlock v"]) (simp_all add: s' m)
      moreover have "proom_inv ?s'"
        by (rule proom_invI [OF ri True, of _ "P_unlock v"]) (simp_all add: s')
      ultimately show ?thesis using lo hi ign nk
        by (simp add: pinv_def s')
    next
      case (P_unlock v)
      with own have m: "file_mutex s = Some t" by simp
      from P_unlock True nk have s': "?s' = s\<lparr>file_mutex := None,
          ppcs := (ppcs s)[t := P_send v]\<rparr>"
        by (simp add: ev pstep_unlock)
      have "plock_inv ?s'"
        by (rule plock_invI [OF li True, of _ "P_send v"]) (simp_all add: s' m)
      moreover have "proom_inv ?s'"
        by (rule proom_invI [OF ri True, of _ "P_send v"]) (simp_all add: s')
      ultimately show ?thesis using lo hi ign nk
        by (simp add: pinv_def s')
    next
      case P_unlock_break
      with own have m: "file_mutex s = Some t" by simp
      from P_unlock_break True nk have s': "?s' = s\<lparr>file_mutex := None,
          ppcs := (ppcs s)[t := P_done]\<rparr>"
        by (simp add: ev pstep_unlock_break)
      have "plock_inv ?s'"
        by (rule plock_invI [OF li True, of _ P_done]) (simp_all add: s' m)
      moreover have "proom_inv ?s'"
        by (rule proom_invI [OF ri True, of _ P_done]) (simp_all add: s')
      ultimately show ?thesis using lo hi ign nk
        by (simp add: pinv_def s')
    next
      case (P_send v)
      define p where "p = (if send_value r \<noteq> 4 then P_done else P_lock)"
      from P_send True nk ign have s': "?s' = s\<lparr>sent := sent s @ [(encode e v, send_value r)],
         perr := perr s @ (if send_value r \<noteq> 4 then [''send failed''] else []),
         ppcs := (ppcs s)[t := p]\<rparr>"
        by (simp add: ev pstep_send_ign p_def)
      have "plock_inv ?s'"
        by (rule plock_invI [OF li True, of _ p]) (simp_all add: s' p_def)
      moreover have "proom_inv ?s'"
        by (rule proom_invI [OF ri True, of _ p]) (simp_all add: s' p_def)
      ultimately show ?thesis using lo hi ign nk
        by (simp add: pinv_def s')
    next
      case P_done
      with assms show ?thesis by (simp add: ev pstep_done)
    qed
  qed
qed

lemma pinv_prun: "pinv s \<Longrightarrow> pinv (prun e evs s)"
  by (induction evs arbitrary: s) (simp_all add: prun_Nil prun_Cons pinv_pstep)

lemma file_inv_pinit: "file_inv src (pinit src gs k)"
  by (simp add: file_inv_def pinit_def pstart_def owner_pc_def)

lemma owner_pc_own:
  "\<lbrakk>file_mutex s' = Some t; ppcs s' = (ppcs s)[t := p]; t < length (ppcs s)\<rbrakk> \<Longrightarrow> owner_pc s' = p"
  by (simp add: owner_pc_def)

lemma owner_pc_free: "file_mutex s' = None \<Longrightarrow> owner_pc s' = P_lock"
  by (simp add: owner_pc_def)

lemma owner_pc_other:
  "\<lbrakk>file_mutex s' = file_mutex s; ppcs s' = (ppcs s)[t := p]; t < length (ppcs s)\<rbrakk>
   \<Longrightarrow> owner_pc s' = (if file_mutex s = Some t then p else owner_pc s)"
  by (cases "file_mutex s") (auto simp: owner_pc_def)

lemma file_inv_pstep:
  assumes "file_inv src s" "pinv s"
  shows "file_inv src (pstep e ev s)"
proof -
  obtain t r where ev: "ev = (t, r)"
    by (cases ev)
  from assms(2) have ign: "sigpipe s = SIG_IGN" and nk: "\<not> killed s" and li: "plock_inv s"
    by (simp_all add: pinv_def)
  from assms(1) have src: "src = map snd (pout s) @ unprinted_at (owner_pc s) @ input_file s"
    and cnt: "numbers_read s = int (length (pout s)) + counted_at (owner_pc s)"
    by (simp_all add: file_inv_def)
  let ?s' = "pstep e ev s"
  show ?thesis
  proof (cases "t < length (ppcs s)")
    case False
    then show ?thesis using assms by (simp add: pstep_absent ev)
  next
    case True
    from li True have own: "pholds (ppcs s ! t) \<Longrightarrow> file_mutex s = Some t"
      by (simp add: plock_inv_def)
    have cur: "pholds (ppcs s ! t) \<Longrightarrow> owner_pc s = ppcs s ! t"
      using own by (simp add: owner_pc_def)
    show ?thesis
    proof (cases "ppcs s ! t")
      case P_lock
      show ?thesis
      proof (cases "file_mutex s")
        case (Some u)
        with P_lock assms show ?thesis by (simp add: ev pstep_lock_blocked)
      next
        case None
        with P_lock True nk have s': "?s' = s\<lparr>file_mutex := Some t, ppcs := (ppcs s)[t := P_check]\<rparr>"
          by (simp add: ev pstep_lock)
        from True have "owner_pc ?s' = P_check"
          by (simp add: s' owner_pc_def)
        moreover from None have "owner_pc s = P_lock"
          by (simp add: owner_pc_def)
        ultimately show ?thesis using src cnt
          by (simp add: file_inv_def s')
      qed
    next
      case P_check
      with cur own have o: "owner_pc s = P_check" and m: "file_mutex s = Some t" by simp_all
      define p where "p = (if numbers_read s \<ge> MAX_DATA then P_unlock_break else P_scan)"
      from P_check True nk have s': "?s' = s\<lparr>ppcs := (ppcs s)[t := p]\<rparr>"
        by (simp add: ev pstep_check p_def)
      from True m have "owner_pc ?s' = p"
        by (simp add: s' owner_pc_def)
      then show ?thesis using src cnt o
        by (simp add: file_inv_def s' p_def)
    next
      case P_scan
      with cur own have o: "owner_pc s = P_scan" and m: "file_mutex s = Some t" by simp_all
      show ?thesis
      proof (cases "sign_next (lone_signs s) \<or> input_file s = []")
        case fails: True
        with P_scan True nk have s': "?s' = s\<lparr>lone_signs := skip_sign (lone_signs s),
            ppcs := (ppcs s)[t := P_unlock_break]\<rparr>"
          by (simp add: ev pstep_scan_fails)
        from True m have "owner_pc ?s' = P_unlock_break"
          by (simp add: s' owner_pc_def)
        then show ?thesis using src cnt o
          by (simp add: file_inv_def s')
      next
        case False
        then obtain v vs where Cons: "input_file s = v # vs" and ns: "\<not> sign_next (lone_signs s)"
          by (cases "input_file s") simp_all
        with P_scan True nk have s': "?s' = s\<lparr>input_file := vs, lone_signs := tl (lone_signs s),
            ppcs := (ppcs s)[t := P_inc v]\<rparr>"
          by (simp add: ev pstep_scan)
        from True m have "owner_pc ?s' = P_inc v"
          by (simp add: s' owner_pc_def)
        then show ?thesis using src cnt o Cons
          by (simp add: file_inv_def s')
      qed
    next
      case (P_inc v)
      with cur own have o: "owner_pc s = P_inc v" and m: "file_mutex s = Some t" by simp_all
      from P_inc True nk have s': "?s' = s\<lparr>numbers_read := numbers_read s + 1,
          ppcs := (ppcs s)[t := P_print v]\<rparr>"
        by (simp add: ev pstep_inc)
      from True m have "owner_pc ?s' = P_print v"
        by (simp add: s' owner_pc_def)
      then show ?thesis using src cnt o
        by (simp add: file_inv_def s')
    next
      case (P_print v)
      with cur own have o: "owner_pc s = P_print v" and m: "file_mutex s = Some t" by simp_all
      from P_print True nk have s': "?s' = s\<lparr>pout := pout s @ [(t, v)],
          ppcs := (ppcs s)[t := P_unlock v]\<rparr>"
        by (simp add: ev pstep_print)
      from True m have "owner_pc ?s' = P_unlock v"
        by (simp add: s' owner_pc_def)
      then show ?thesis using src cnt o
        by (simp add: file_inv_def s')
    next
      case (P_unlock v)
      with cur have o: "owner_pc s = P_unlock v" by simp
      from P_unlock True nk have s': "?s' = s\<lparr>file_mutex := None,
          ppcs := (ppcs s)[t := P_send v]\<rparr>"
        by (simp add: ev pstep_unlock)
      have "owner_pc ?s' = P_lock"
        by (simp add: s' owner_pc_def)
      then show ?thesis using src cnt o
        by (simp add: file_inv_def s')
    next
      case P_unlock_break
      with cur have o: "owner_pc s = P_unlock_break" by simp
      from P_unlock_break True nk have s': "?s' = s\<lparr>file_mutex := None,
          ppcs := (ppcs s)[t := P_done]\<rparr>"
        by (simp add: ev pstep_unlock_break)
      have "owner_pc ?s' = P_lock"
        by (simp add: s' owner_pc_def)
      then show ?thesis using src cnt o
        by (simp add: file_inv_def s')
    next
      case (P_send v)
      define p where "p = (if send_value r \<noteq> 4 then P_done else P_lock)"
      from P_send True nk ign have s': "?s' = s\<lparr>sent := sent s @ [(encode e v, send_value r)],
         perr := perr s @ (if send_value r \<noteq> 4 then [''send failed''] else []),
         ppcs := (ppcs s)[t := p]\<rparr>"
        by (simp add: ev pstep_send_ign p_def)
      have "owner_pc ?s' = (if file_mutex s = Some t then p else owner_pc s)"
        by (rule owner_pc_other [OF _ _ True]) (simp_all add: s')
      moreover have "file_mutex s = Some t \<Longrightarrow> owner_pc s = P_send v"
        using P_send by (simp add: owner_pc_def)
      ultimately have "unprinted_at (owner_pc ?s') = unprinted_at (owner_pc s)"
        "counted_at (owner_pc ?s') = counted_at (owner_pc s)"
        by (auto simp: p_def)
      then show ?thesis using src cnt
        by (simp add: file_inv_def s')
    next
      case P_done
      with assms show ?thesis by (simp add: ev pstep_done)
    qed
  qed
qed

lemma file_inv_prun: "file_inv src s \<Longrightarrow> pinv s \<Longrightarrow> file_inv src (prun e evs s)"
  by (induction evs arbitrary: s) (simp_all add: prun_Nil prun_Cons pinv_pstep file_inv_pstep)

lemma numbers_read_pstep: "numbers_read s \<le> numbers_read (pstep e ev s)"
proof -
  obtain t r where ev: "ev = (t, r)"
    by (cases ev)
  show ?thesis
    unfolding ev
    by (cases "ppcs s ! t"; cases r)
      (simp_all add: pstep_def pgoto_def send_returns_def split: list.split)
qed

lemma numbers_read_prun: "numbers_read s \<le> numbers_read (prun e evs s)"
proof (induction evs arbitrary: s)
  case Nil
  show ?case by (simp add: prun_Nil)
next
  case (Cons ev evs)
  from numbers_read_pstep [of s e ev] Cons [of "pstep e ev s"] show ?case
    by (simp add: prun_Cons)
qed

lemma mutual_exclusion:
  assumes "plock_inv s" "t < length (ppcs s)" "u < length (ppcs s)"
    "pholds (ppcs s ! t)" "pholds (ppcs s ! u)"
  shows "t = u"
proof -
  from assms have "file_mutex s = Some t" "file_mutex s = Some u"
    unfolding plock_inv_def by blast+
  then show ?thesis by simp
qed

lemma pstep_outside:
  assumes "plock_inv s" "t < length (ppcs s)" "pholds (ppcs s ! t)" "u \<noteq> t"
  shows "input_file (pstep e (u, r) s) = input_file s
    \<and> lone_signs (pstep e (u, r) s) = lone_signs s
    \<and> numbers_read (pstep e (u, r) s) = numbers_read s
    \<and> pout (pstep e (u, r) s) = pout s"
proof (cases "u < length (ppcs s)")
  case False
  then show ?thesis by (simp add: pstep_absent)
next
  case True
  from assms(1,2,3) have m: "file_mutex s = Some t"
    by (simp add: plock_inv_def)
  have "\<not> pholds (ppcs s ! u)"
    using mutual_exclusion [OF assms(1,2) True assms(3)] assms(4) by blast
  then show ?thesis using m
    by (cases "ppcs s ! u"; cases r) (simp_all add: pstep_def pgoto_def send_returns_def)
qed

lemma split_source:
  "src = xs @ v # ys \<Longrightarrow> length xs < length src \<and> v = src ! length xs \<and> ys = drop (Suc (length xs)) src"
  by simp

lemma source_position:
  assumes "file_inv src s"
  shows "map snd (pout s) = take (length (pout s)) src"
    and "owner_pc s = P_scan \<Longrightarrow> input_file s = drop (nat (numbers_read s)) src"
    and "owner_pc s = P_inc v \<Longrightarrow> nat (numbers_read s) < length src
          \<and> v = src ! nat (numbers_read s)
          \<and> input_file s = drop (Suc (nat (numbers_read s))) src"
    and "file_mutex s = None \<Longrightarrow> numbers_read s = int (length (pout s))
          \<and> input_file s = drop (nat (numbers_read s)) src"
proof -
  from assms have src: "src = map snd (pout s) @ unprinted_at (owner_pc s) @ input_file s"
    and cnt: "numbers_read s = int (length (pout s)) + counted_at (owner_pc s)"
    by (simp_all add: file_inv_def)
  have l: "length (map snd (pout s)) = length (pout s)" by simp
  show "map snd (pout s) = take (length (pout s)) src"
    by (subst src) simp
  show "input_file s = drop (nat (numbers_read s)) src" if "owner_pc s = P_scan"
    using that cnt by (subst src) simp
  show "nat (numbers_read s) < length src \<and> v = src ! nat (numbers_read s)
          \<and> input_file s = drop (Suc (nat (numbers_read s))) src" if "owner_pc s = P_inc v"
  proof -
    from that cnt have n: "nat (numbers_read s) = length (map snd (pout s))" by simp
    from that src have s2: "src = map snd (pout s) @ v # input_file s" by simp
    show ?thesis
      unfolding n by (rule split_source [OF s2])
  qed
  show "numbers_read s = int (length (pout s)) \<and> input_file s = drop (nat (numbers_read s)) src"
    if "file_mutex s = None"
  proof -
    from that have "owner_pc s = P_lock" by (simp add: owner_pc_def)
    with cnt src show ?thesis by (subst src) simp
  qed
qed

lemma owner_pc_holder:
  assumes "plock_inv s" "t < length (ppcs s)" "pholds (ppcs s ! t)"
  shows "owner_pc s = ppcs s ! t"
  using assms by (simp add: plock_inv_def owner_pc_def)

lemma prun_reading_events:
  "prun e reading_events (pinit [5, 6] [] 2) =
     (pinit [5, 6] [] 2)\<lparr>input_file := [6], file_mutex := Some 0, ppcs := [P_inc 5, P_lock]\<rparr>"
  by (simp add: reading_events_def prun_Cons prun_Nil pstep_def pgoto_def pinit_def pstart_def
      MAX_DATA_def numeral_2_eq_2)

text \<open>
  Claim C2. In every state of every run of the producer's workers
  \<open>0 \<le> numbers_read \<le> MAX_DATA\<close>, and no continuation of the run decreases
  \<open>numbers_read\<close>. At most one worker is between its lock and its unlock (\<open>pholds\<close>);
  while one is, no statement of another worker changes the file position, the counter
  or the status output, so the \<open>fscanf\<close> and the increment of one worker are not
  interleaved with those of another. A worker about to read finds the file at source
  position \<open>numbers_read\<close>; the value a worker has read and not yet counted is the
  source element at index \<open>numbers_read\<close>; the values reported read are, in order, a
  prefix of the source; and whenever the mutex is free, exactly the first
  \<open>numbers_read\<close> source values have been read: none is skipped, none is read twice.
\<close>

theorem producer_read_counter_invariant:
  assumes "s = prun e evs (pinit src gs k)"
  shows "0 \<le> numbers_read s \<and> numbers_read s \<le> MAX_DATA
    \<and> (\<forall>evs'. numbers_read s \<le> numbers_read (prun e evs' s))
    \<and> (\<forall>t u. t < length (ppcs s) \<and> u < length (ppcs s) \<and> pholds (ppcs s ! t)
          \<and> pholds (ppcs s ! u) \<longrightarrow> t = u)
    \<and> (\<forall>t u r. t < length (ppcs s) \<and> pholds (ppcs s ! t) \<and> u \<noteq> t \<longrightarrow>
          input_file (pstep e (u, r) s) = input_file s
          \<and> lone_signs (pstep e (u, r) s) = lone_signs s
          \<and> numbers_read (pstep e (u, r) s) = numbers_read s
          \<and> pout (pstep e (u, r) s) = pout s)
    \<and> (\<forall>t. t < length (ppcs s) \<and> ppcs s ! t = P_scan \<longrightarrow>
          input_file s = drop (nat (numbers_read s)) src)
    \<and> (\<forall>t v. t < length (ppcs s) \<and> ppcs s ! t = P_inc v \<longrightarrow>
          nat (numbers_read s) < length src \<and> v = src ! nat (numbers_read s)
          \<and> input_file s = drop (Suc (nat (numbers_read s))) src)
    \<and> map snd (pout s) = take (length (pout s)) src
    \<and> (file_mutex s = None \<longrightarrow>
          numbers_read s = int (length (pout s))
          \<and> input_file s = drop (nat (numbers_read s)) src)"
proof -
  from assms have inv: "pinv s" and finv: "file_inv src s"
    by (simp_all add: pinv_prun pinv_pinit file_inv_prun file_inv_pinit)
  from inv have li: "plock_inv s"
    by (simp add: pinv_def)
  from inv have "0 \<le> numbers_read s \<and> numbers_read s \<le> MAX_DATA"
    by (simp add: pinv_def)
  moreover have "\<forall>evs'. numbers_read s \<le> numbers_read (prun e evs' s)"
    by (simp add: numbers_read_prun)
  moreover have "\<forall>t u. t < length (ppcs s) \<and> u < length (ppcs s) \<and> pholds (ppcs s ! t)
          \<and> pholds (ppcs s ! u) \<longrightarrow> t = u"
    using mutual_exclusion [OF li] by blast
  moreover have "\<forall>t u r. t < length (ppcs s) \<and> pholds (ppcs s ! t) \<and> u \<noteq> t \<longrightarrow>
          input_file (pstep e (u, r) s) = input_file s
          \<and> lone_signs (pstep e (u, r) s) = lone_signs s
          \<and> numbers_read (pstep e (u, r) s) = numbers_read s
          \<and> pout (pstep e (u, r) s) = pout s"
    using pstep_outside [OF li] by blast
  moreover have "\<forall>t. t < length (ppcs s) \<and> ppcs s ! t = P_scan \<longrightarrow>
          input_file s = drop (nat (numbers_read s)) src"
  proof (intro allI impI)
    fix t
    assume "t < length (ppcs s) \<and> ppcs s ! t = P_scan"
    with owner_pc_holder [OF li, of t] have "owner_pc s = P_scan" by simp
    then show "input_file s = drop (nat (numbers_read s)) src"
      by (rule source_position(2) [OF finv])
  qed
  moreover have "\<forall>t v. t < length (ppcs s) \<and> ppcs s ! t = P_inc v \<longrightarrow>
          nat (numbers_read s) < length src \<and> v = src ! nat (numbers_read s)
          \<and> input_file s = drop (Suc (nat (numbers_read s))) src"
  proof (intro allI impI)
    fix t v
    assume "t < length (ppcs s) \<and> ppcs s ! t = P_inc v"
    with owner_pc_holder [OF li, of t] have "owner_pc s = P_inc v" by simp
    then show "nat (numbers_read s) < length src \<and> v = src ! nat (numbers_read s)
          \<and> input_file s = drop (Suc (nat (numbers_read s))) src"
      by (rule source_position(3) [OF finv])
  qed
  moreover have "map snd (pout s) = take (length (pout s)) src"
    by (rule source_position(1) [OF finv])
  moreover have "file_mutex s = None \<longrightarrow>
          numbers_read s = int (length (pout s))
          \<and> input_file s = drop (nat (numbers_read s)) src"
    using source_position(4) [OF finv] by blast
  ultimately show ?thesis by blast
qed

theorem producer_read_counter_invariant_witness:
  "ppcs (prun Little_endian reading_events (pinit [5, 6] [] 2)) = [P_inc 5, P_lock]
   \<and> numbers_read (prun Little_endian reading_events (pinit [5, 6] [] 2)) = 0
   \<and> [5, 6] ! nat (numbers_read (prun Little_endian reading_events (pinit [5, 6] [] 2))) = (5 :: c_int)
   \<and> input_file (pstep Little_endian (1, Send_ret 4)
        (prun Little_endian reading_events (pinit [5, 6] [] 2))) = [6]
   \<and> numbers_read (pstep Little_endian (1, Send_ret 4)
        (prun Little_endian reading_events (pinit [5, 6] [] 2))) = 0"
proof -
  let ?s = "prun Little_endian reading_events (pinit [5, 6] [] 2)"
  have s: "?s = (pinit [5, 6] [] 2)\<lparr>input_file := [6], file_mutex := Some 0, ppcs := [P_inc 5, P_lock]\<rparr>"
    by (rule prun_reading_events)
  have h: "ppcs ?s = [P_inc 5, P_lock]" "numbers_read ?s = 0" "input_file ?s = [6]"
    unfolding s by (simp_all add: pinit_def pstart_def)
  have p: "0 < length (ppcs ?s) \<and> pholds (ppcs ?s ! 0) \<and> (1::nat) \<noteq> 0"
    "0 < length (ppcs ?s) \<and> ppcs ?s ! 0 = P_inc 5"
    unfolding h by simp_all
  from producer_read_counter_invariant [where s = ?s and e = Little_endian
      and evs = reading_events and src = "[5, 6]" and k = 2, OF refl]
  have "input_file (pstep Little_endian (1, Send_ret 4) ?s) = input_file ?s
      \<and> numbers_read (pstep Little_endian (1, Send_ret 4) ?s) = numbers_read ?s"
    and "(5 :: c_int) = [5, 6] ! nat (numbers_read ?s)"
    using p by blast+
  with h show ?thesis by simp
qed


section \<open>Runs of the producer without a failing send\<close>

lemma held_frames_update:
  "t < length pcs \<Longrightarrow>
     held_frames e (pcs[t := p]) + held e (pcs ! t) = held_frames e pcs + held e p"
proof (induction pcs arbitrary: t)
  case Nil
  then show ?case by simp
next
  case (Cons q pcs)
  show ?case
  proof (cases t)
    case 0
    then show ?thesis by (simp add: held_frames_def)
  next
    case (Suc u)
    with Cons.prems have "u < length pcs" by simp
    from Cons.IH [OF this] Suc show ?thesis
      by (simp add: held_frames_def ac_simps)
  qed
qed

lemma held_frames_same:
  assumes "t < length pcs" "held e (pcs ! t) = held e p"
  shows "held_frames e (pcs[t := p]) = held_frames e pcs"
  using held_frames_update [OF assms(1), of e p] assms(2) by simp

lemma held_frames_done: "list_all (\<lambda>p. p = P_done) pcs \<Longrightarrow> held_frames e pcs = {#}"
  by (induction pcs) (simp_all add: held_frames_def)

lemma held_frames_start: "held_frames e (replicate k P_lock) = {#}"
  by (induction k) (simp_all add: held_frames_def)

lemma sent_inv_pinit: "sent_inv e (pinit src gs k)"
  by (simp add: sent_inv_def pinit_def pstart_def held_frames_start)

lemma sent_inv_pstep:
  assumes "sent_inv e s" "pinv s"
  shows "sent_inv e (pstep e ev s)"
proof -
  obtain t r where ev: "ev = (t, r)"
    by (cases ev)
  from assms(2) have ign: "sigpipe s = SIG_IGN" and nk: "\<not> killed s"
    by (simp_all add: pinv_def)
  from assms(1) have inv: "mset (map (encode e \<circ> snd) (pout s))
      = mset (map fst (sent s)) + held_frames e (ppcs s)"
    by (simp add: sent_inv_def)
  let ?s' = "pstep e ev s"
  show ?thesis
  proof (cases "t < length (ppcs s)")
    case False
    then show ?thesis using assms by (simp add: pstep_absent ev)
  next
    case True
    note upd = held_frames_update [OF True, of e]
    show ?thesis
    proof (cases "ppcs s ! t")
      case P_lock
      show ?thesis
      proof (cases "file_mutex s")
        case (Some u)
        with P_lock assms show ?thesis by (simp add: ev pstep_lock_blocked)
      next
        case None
        with P_lock True nk upd [of P_check] inv show ?thesis
          by (simp add: ev pstep_lock sent_inv_def)
      qed
    next
      case P_check
      with True nk inv upd [of P_unlock_break] upd [of P_scan] show ?thesis
        by (simp add: ev pstep_check sent_inv_def)
    next
      case P_scan
      show ?thesis
      proof (cases "sign_next (lone_signs s) \<or> input_file s = []")
        case fails: True
        with P_scan True nk inv upd [of P_unlock_break] show ?thesis
          by (simp add: ev pstep_scan_fails sent_inv_def)
      next
        case False
        then obtain v vs where Cons: "input_file s = v # vs" and ns: "\<not> sign_next (lone_signs s)"
          by (cases "input_file s") simp_all
        with P_scan True nk inv upd [of "P_inc v"] show ?thesis
          by (simp add: ev pstep_scan sent_inv_def)
      qed
    next
      case (P_inc v)
      with True nk inv upd [of "P_print v"] show ?thesis
        by (simp add: ev pstep_inc sent_inv_def)
    next
      case (P_print v)
      with True nk inv upd [of "P_unlock v"] show ?thesis
        by (simp add: ev pstep_print sent_inv_def)
    next
      case (P_unlock v)
      with True nk inv upd [of "P_send v"] show ?thesis
        by (simp add: ev pstep_unlock sent_inv_def)
    next
      case P_unlock_break
      with True nk inv upd [of P_done] show ?thesis
        by (simp add: ev pstep_unlock_break sent_inv_def)
    next
      case (P_send v)
      define p where "p = (if send_value r \<noteq> 4 then P_done else P_lock)"
      from P_send True nk ign have s': "?s' = s\<lparr>sent := sent s @ [(encode e v, send_value r)],
         perr := perr s @ (if send_value r \<noteq> 4 then [''send failed''] else []),
         ppcs := (ppcs s)[t := p]\<rparr>"
        by (simp add: ev pstep_send_ign p_def)
      from upd [of p] P_send have "held_frames e ((ppcs s)[t := p]) + {#encode e v#}
          = held_frames e (ppcs s)"
        by (simp add: p_def)
      with inv show ?thesis
        by (simp add: s' sent_inv_def)
    next
      case P_done
      with assms show ?thesis by (simp add: ev pstep_done)
    qed
  qed
qed

lemma sent_inv_prun: "sent_inv e s \<Longrightarrow> pinv s \<Longrightarrow> sent_inv e (prun e evs s)"
  by (induction evs arbitrary: s) (simp_all add: prun_Nil prun_Cons pinv_pstep sent_inv_pstep)

lemma silent_inv_pinit: "silent_inv (pinit src gs k)"
  by (simp add: silent_inv_def pinit_def pstart_def)

lemma silent_inv_pstep:
  assumes "silent_inv s" "snd ev = Send_ret 4"
  shows "silent_inv (pstep e ev s)"
proof -
  obtain t where ev: "ev = (t, Send_ret 4)"
    using assms(2) by (cases ev) simp
  from assms(1) show ?thesis
    unfolding ev
    by (cases "ppcs s ! t")
      (auto simp: pstep_def pgoto_def send_returns_def silent_inv_def split: list.split)
qed

lemma silent_inv_prun:
  "silent_inv s \<Longrightarrow> \<forall>ev\<in>set evs. snd ev = Send_ret 4 \<Longrightarrow> silent_inv (prun e evs s)"
  by (induction evs arbitrary: s) (simp_all add: prun_Nil prun_Cons silent_inv_pstep)

lemma quiet_inv_pinit: "sign_free gs \<Longrightarrow> quiet_inv (pinit src gs k)"
  by (simp add: quiet_inv_def pinit_def pstart_def)

lemma owner_valid_pinit: "owner_valid (pinit src gs k)"
  by (simp add: owner_valid_def pinit_def pstart_def)

lemma quiet_invI:
  assumes "quiet_inv s" "t < length (ppcs s)" "ppcs s' = (ppcs s)[t := p]"
    "sign_free (lone_signs s')" "drained s \<longrightarrow> drained s'" "exited p \<longrightarrow> drained s'"
  shows "quiet_inv s'"
proof -
  from assms(1) have c: "\<forall>u<length (ppcs s). exited (ppcs s ! u) \<longrightarrow> drained s"
    by (simp add: quiet_inv_def)
  have "\<forall>u<length (ppcs s'). exited (ppcs s' ! u) \<longrightarrow> drained s'"
  proof (intro allI impI)
    fix u
    assume u: "u < length (ppcs s')" and x: "exited (ppcs s' ! u)"
    show "drained s'"
    proof (cases "u = t")
      case True
      with assms(2,3,6) x show ?thesis by simp
    next
      case False
      with u x assms(3) have "u < length (ppcs s)" "exited (ppcs s ! u)" by simp_all
      with c have "drained s" by blast
      with assms(5) show ?thesis by blast
    qed
  qed
  with assms(4) show ?thesis by (simp add: quiet_inv_def)
qed

lemma quiet_inv_pstep:
  assumes "quiet_inv s" "pinv s" "snd ev = Send_ret 4"
  shows "quiet_inv (pstep e ev s)"
proof -
  obtain t where ev: "ev = (t, Send_ret 4)"
    using assms(3) by (cases ev) simp
  from assms(2) have ign: "sigpipe s = SIG_IGN" and nk: "\<not> killed s"
    by (simp_all add: pinv_def)
  from assms(1) have c: "\<And>u. u < length (ppcs s) \<Longrightarrow> exited (ppcs s ! u) \<Longrightarrow> drained s"
    and sf: "sign_free (lone_signs s)"
    by (simp_all add: quiet_inv_def)
  note ns = sign_free_next [OF sf]
  let ?s' = "pstep e ev s"
  show ?thesis
  proof (cases "t < length (ppcs s)")
    case False
    then show ?thesis using assms by (simp add: pstep_absent ev)
  next
    case True
    note I = quiet_invI [OF assms(1) True]
    show ?thesis
    proof (cases "ppcs s ! t")
      case P_lock
      show ?thesis
      proof (cases "file_mutex s")
        case (Some u)
        with P_lock assms show ?thesis by (simp add: ev pstep_lock_blocked)
      next
        case None
        with P_lock True nk sf show ?thesis
          by (intro I [of _ P_check]) (simp_all add: ev pstep_lock drained_def)
      qed
    next
      case P_check
      with True nk sf show ?thesis
        by (intro I [of _ "if numbers_read s \<ge> MAX_DATA then P_unlock_break else P_scan"])
          (simp_all add: ev pstep_check drained_def)
    next
      case P_scan
      show ?thesis
      proof (cases "input_file s")
        case Nil
        with P_scan True nk sf ns show ?thesis
          by (intro I [of _ P_unlock_break]) (simp_all add: ev pstep_scan_eof drained_def)
      next
        case (Cons v vs)
        with P_scan True nk sf ns show ?thesis
          by (intro I [of _ "P_inc v"]) (simp_all add: ev pstep_scan drained_def sign_free_tl)
      qed
    next
      case (P_inc v)
      with True nk sf show ?thesis
        by (intro I [of _ "P_print v"]) (auto simp: ev pstep_inc drained_def)
    next
      case (P_print v)
      with True nk sf show ?thesis
        by (intro I [of _ "P_unlock v"]) (simp_all add: ev pstep_print drained_def)
    next
      case (P_unlock v)
      with True nk sf show ?thesis
        by (intro I [of _ "P_send v"]) (simp_all add: ev pstep_unlock drained_def)
    next
      case P_unlock_break
      with c [OF True] have "drained s" by simp
      with P_unlock_break True nk sf show ?thesis
        by (intro I [of _ P_done]) (simp_all add: ev pstep_unlock_break drained_def)
    next
      case (P_send v)
      with True nk sf show ?thesis
        by (intro I [of _ P_lock]) (simp_all add: ev pstep_send drained_def)
    next
      case P_done
      with assms show ?thesis by (simp add: ev pstep_done)
    qed
  qed
qed

lemma quiet_inv_prun:
  "quiet_inv s \<Longrightarrow> pinv s \<Longrightarrow> \<forall>ev\<in>set evs. snd ev = Send_ret 4 \<Longrightarrow> quiet_inv (prun e evs s)"
  by (induction evs arbitrary: s) (simp_all add: prun_Nil prun_Cons pinv_pstep quiet_inv_pstep)

lemma owner_valid_pstep: "owner_valid s \<Longrightarrow> owner_valid (pstep e ev s)"
proof -
  assume a: "owner_valid s"
  obtain t r where ev: "ev = (t, r)"
    by (cases ev)
  show ?thesis
  proof (cases "t < length (ppcs s)")
    case False
    with a show ?thesis by (simp add: pstep_absent ev)
  next
    case True
    with a show ?thesis
      unfolding ev
      by (cases "ppcs s ! t"; cases r)
        (simp_all add: pstep_def pgoto_def send_returns_def owner_valid_def split: list.split)
  qed
qed

lemma owner_valid_prun: "owner_valid s \<Longrightarrow> owner_valid (prun e evs s)"
  by (induction evs arbitrary: s) (simp_all add: prun_Nil prun_Cons owner_valid_pstep)

lemma prun_read_events:
  assumes "\<not> killed s" "t < length (ppcs s)" "ppcs s ! t = P_lock" "file_mutex s = None"
    "numbers_read s < MAX_DATA" "\<not> sign_next (lone_signs s)" "input_file s = v # vs"
  shows "prun e (read_events t) s =
     s\<lparr>input_file := vs, lone_signs := tl (lone_signs s), numbers_read := numbers_read s + 1,
       file_mutex := None, ppcs := (ppcs s)[t := P_lock], pout := pout s @ [(t, v)],
       sent := sent s @ [(encode e v, 4)]\<rparr>"
  using assms
  by (simp add: read_events_def numeral_eq_Suc prun_Cons prun_Nil pstep_lock pstep_check
      pstep_scan pstep_inc pstep_print pstep_unlock pstep_send)

lemma prun_exit_events:
  assumes "\<not> killed s" "t < length (ppcs s)" "ppcs s ! t = P_lock" "file_mutex s = None"
    "MAX_DATA \<le> numbers_read s \<or> sign_next (lone_signs s) \<or> input_file s = []"
  shows "prun e (exit_events t) s =
     s\<lparr>lone_signs := (if MAX_DATA \<le> numbers_read s then lone_signs s
                       else skip_sign (lone_signs s)),
       file_mutex := None, ppcs := (ppcs s)[t := P_done]\<rparr>"
proof (cases "MAX_DATA \<le> numbers_read s")
  case True
  with assms(1-4) show ?thesis
    by (simp add: exit_events_def numeral_eq_Suc prun_Cons prun_Nil pstep_lock pstep_check
        pstep_unlock_break pstep_done)
next
  case False
  with assms(5) have "sign_next (lone_signs s) \<or> input_file s = []" by simp
  with False assms(1-4) show ?thesis
    by (simp add: exit_events_def numeral_eq_Suc prun_Cons prun_Nil pstep_lock pstep_check
        pstep_scan_fails pstep_unlock_break pstep_done)
qed

lemma skip_sign_free: "sign_free gs \<Longrightarrow> skip_sign gs = gs"
  by (cases gs rule: skip_sign.cases) (simp_all add: sign_free_def)

lemma prun_read_all:
  assumes "\<not> killed s" "t < length (ppcs s)" "ppcs s ! t = P_lock" "file_mutex s = None"
    "numbers_read s + int n \<le> MAX_DATA" "length (input_file s) = n" "sign_free (lone_signs s)"
  shows "input_file (prun e (concat (replicate n (read_events t))) s) = []
    \<and> \<not> killed (prun e (concat (replicate n (read_events t))) s)
    \<and> file_mutex (prun e (concat (replicate n (read_events t))) s) = None
    \<and> ppcs (prun e (concat (replicate n (read_events t))) s) = ppcs s
    \<and> sign_free (lone_signs (prun e (concat (replicate n (read_events t))) s))"
  using assms
proof (induction n arbitrary: s)
  case 0
  then show ?case by (simp add: prun_Nil)
next
  case (Suc n)
  then obtain v vs where f: "input_file s = v # vs"
    by (cases "input_file s") simp_all
  let ?s' = "prun e (read_events t) s"
  from Suc.prems f have s': "?s' =
     s\<lparr>input_file := vs, lone_signs := tl (lone_signs s), numbers_read := numbers_read s + 1,
       file_mutex := None, ppcs := (ppcs s)[t := P_lock], pout := pout s @ [(t, v)],
       sent := sent s @ [(encode e v, 4)]\<rparr>"
    by (intro prun_read_events) (simp_all add: sign_free_next)
  from Suc.prems(3) have same: "(ppcs s)[t := P_lock] = ppcs s"
    by (metis list_update_id)
  have "input_file (prun e (concat (replicate n (read_events t))) ?s') = []
    \<and> \<not> killed (prun e (concat (replicate n (read_events t))) ?s')
    \<and> file_mutex (prun e (concat (replicate n (read_events t))) ?s') = None
    \<and> ppcs (prun e (concat (replicate n (read_events t))) ?s') = ppcs ?s'
    \<and> sign_free (lone_signs (prun e (concat (replicate n (read_events t))) ?s'))"
    using Suc.prems f by (intro Suc.IH) (simp_all add: s' sign_free_tl)
  then show ?case
    by (simp add: prun_append s' same)
qed

lemma prun_exit_all:
  assumes "\<not> killed s" "file_mutex s = None" "input_file s = []" "distinct ts"
    "\<forall>t\<in>set ts. t < length (ppcs s) \<and> ppcs s ! t = P_lock" "sign_free (lone_signs s)"
  shows "(\<forall>t\<in>set ts. ppcs (prun e (concat (map exit_events ts)) s) ! t = P_done)
    \<and> (\<forall>u. u \<notin> set ts \<longrightarrow> ppcs (prun e (concat (map exit_events ts)) s) ! u = ppcs s ! u)
    \<and> length (ppcs (prun e (concat (map exit_events ts)) s)) = length (ppcs s)"
  using assms
proof (induction ts arbitrary: s)
  case Nil
  then show ?case by (simp add: prun_Nil)
next
  case (Cons t ts)
  let ?s' = "prun e (exit_events t) s"
  from Cons.prems have "?s' = s\<lparr>lone_signs := (if MAX_DATA \<le> numbers_read s then lone_signs s
        else skip_sign (lone_signs s)), file_mutex := None, ppcs := (ppcs s)[t := P_done]\<rparr>"
    by (intro prun_exit_events) simp_all
  with Cons.prems(6) have s': "?s' = s\<lparr>file_mutex := None, ppcs := (ppcs s)[t := P_done]\<rparr>"
    by (simp add: skip_sign_free)
  from Cons.prems have t: "t \<notin> set ts" "t < length (ppcs s)" by simp_all
  have "\<forall>u\<in>set ts. u < length (ppcs ?s') \<and> ppcs ?s' ! u = P_lock"
    using Cons.prems t(1) by (auto simp: s' nth_list_update)
  with Cons.prems have IH: "(\<forall>u\<in>set ts. ppcs (prun e (concat (map exit_events ts)) ?s') ! u = P_done)
    \<and> (\<forall>u. u \<notin> set ts \<longrightarrow> ppcs (prun e (concat (map exit_events ts)) ?s') ! u = ppcs ?s' ! u)
    \<and> length (ppcs (prun e (concat (map exit_events ts)) ?s')) = length (ppcs ?s')"
    by (intro Cons.IH) (simp_all add: s')
  have run: "prun e (concat (map exit_events (t # ts))) s = prun e (concat (map exit_events ts)) ?s'"
    by (simp add: prun_append)
  from IH t show ?case
    unfolding run by (auto simp: s' nth_list_update)
qed

lemma drain_events_ok: "\<forall>ev\<in>set (drain_events n k). snd ev = Send_ret 4"
  by (auto simp: drain_events_def read_events_def exit_events_def)

lemma prun_drain_events:
  assumes "int (length src) \<le> MAX_DATA" "sign_free gs"
  shows "pall_done (prun e (drain_events (if k = 0 then 0 else length src) k) (pinit src gs k))"
proof (cases "k = 0")
  case True
  then show ?thesis
    by (simp add: drain_events_def prun_Nil pall_done_def pinit_def)
next
  case False
  let ?s0 = "pinit src gs k"
  let ?s1 = "prun e (concat (replicate (length src) (read_events 0))) ?s0"
  from False assms have 1: "input_file ?s1 = [] \<and> \<not> killed ?s1 \<and> file_mutex ?s1 = None
      \<and> ppcs ?s1 = ppcs ?s0 \<and> sign_free (lone_signs ?s1)"
    by (intro prun_read_all) (simp_all add: pinit_def pstart_def)
  have p0: "ppcs ?s0 = replicate k P_lock"
    by (simp add: pinit_def)
  with 1 have p: "ppcs ?s1 = replicate k P_lock"
    by simp
  let ?s2 = "prun e (concat (map exit_events [0..<k])) ?s1"
  have "(\<forall>t\<in>set [0..<k]. ppcs ?s2 ! t = P_done)
    \<and> (\<forall>u. u \<notin> set [0..<k] \<longrightarrow> ppcs ?s2 ! u = ppcs ?s1 ! u)
    \<and> length (ppcs ?s2) = length (ppcs ?s1)"
    using 1 by (intro prun_exit_all) (simp_all add: p0)
  then have "pall_done ?s2"
    by (simp add: pall_done_def list_all_length p)
  with False show ?thesis
    by (simp add: drain_events_def prun_append)
qed

lemma length_ppcs_pstep: "length (ppcs (pstep e ev s)) = length (ppcs s)"
proof -
  obtain t r where ev: "ev = (t, r)"
    by (cases ev)
  show ?thesis
    unfolding ev
    by (cases "ppcs s ! t"; cases r)
      (simp_all add: pstep_def pgoto_def send_returns_def split: list.split)
qed

lemma length_ppcs_prun: "length (ppcs (prun e evs s)) = length (ppcs s)"
  by (induction evs arbitrary: s) (simp_all add: prun_Nil prun_Cons length_ppcs_pstep)

lemma counted_unprinted: "counted_at p = 0 \<or> (counted_at p = 1 \<and> length (unprinted_at p) = 1)"
  by (cases p) simp_all

lemma read_bound:
  assumes "file_inv src s"
  shows "numbers_read s \<le> int (length src)" "length (pout s) \<le> length src"
proof -
  from assms have eq: "src = map snd (pout s) @ unprinted_at (owner_pc s) @ input_file s"
    and cnt: "numbers_read s = int (length (pout s)) + counted_at (owner_pc s)"
    by (simp_all add: file_inv_def)
  from arg_cong [OF eq, of length] have src: "length src = length (pout s)
      + length (unprinted_at (owner_pc s)) + length (input_file s)"
    by simp
  from src show "length (pout s) \<le> length src" by simp
  from src cnt counted_unprinted [of "owner_pc s"] show "numbers_read s \<le> int (length src)"
    by auto
qed

lemma sent_bound:
  assumes "sent_inv e s"
  shows "length (sent s) \<le> length (pout s)"
proof -
  from assms have "size (mset (map (encode e \<circ> snd) (pout s)))
      = size (mset (map fst (sent s)) + held_frames e (ppcs s))"
    by (simp add: sent_inv_def)
  then show ?thesis by simp
qed

lemma finished_prefix:
  assumes "file_inv src s" "sent_inv e s" "owner_valid s" "pall_done s"
  shows "src = map snd (pout s) @ input_file s"
    and "numbers_read s = int (length (pout s))"
    and "length (sent s) = length (pout s)"
    and "mset (map fst (sent s)) = mset (map (encode e) (map snd (pout s)))"
proof -
  from assms(4) have fin: "\<And>t. t < length (ppcs s) \<Longrightarrow> ppcs s ! t = P_done"
    by (simp add: pall_done_def list_all_length)
  have o: "owner_pc s = P_lock \<or> owner_pc s = P_done"
  proof (cases "file_mutex s")
    case None
    then show ?thesis by (simp add: owner_pc_def)
  next
    case (Some t)
    with assms(3) have "t < length (ppcs s)" by (simp add: owner_valid_def)
    with fin Some show ?thesis by (simp add: owner_pc_def)
  qed
  with assms(1) show "src = map snd (pout s) @ input_file s"
    and "numbers_read s = int (length (pout s))"
    by (auto simp: file_inv_def)
  from assms(2,4) have m: "mset (map (encode e \<circ> snd) (pout s)) = mset (map fst (sent s))"
    by (simp add: sent_inv_def held_frames_done pall_done_def)
  from arg_cong [OF m, of size] show "length (sent s) = length (pout s)"
    by simp
  from m show "mset (map fst (sent s)) = mset (map (encode e) (map snd (pout s)))"
    by simp
qed

lemma finished:
  assumes "file_inv src s" "sent_inv e s" "quiet_inv s" "owner_valid s" "pall_done s"
    "0 < length (ppcs s)" "int (length src) < MAX_DATA"
  shows "numbers_read s = int (length src) \<and> input_file s = []
    \<and> mset (map fst (sent s)) = mset (map (encode e) src) \<and> map snd (pout s) = src"
proof -
  note fp = finished_prefix [OF assms(1,2,4,5)]
  from assms(5) have fin: "\<And>t. t < length (ppcs s) \<Longrightarrow> ppcs s ! t = P_done"
    by (simp add: pall_done_def list_all_length)
  from fin [OF assms(6)] assms(3,6) have "drained s"
    by (auto simp: quiet_inv_def)
  moreover from read_bound(2) [OF assms(1)] fp(2) assms(7) have "numbers_read s < MAX_DATA"
    by simp
  ultimately have f: "input_file s = []"
    by (simp add: drained_def)
  with fp(1) have p: "map snd (pout s) = src" by simp
  from fp(4) have "mset (map fst (sent s)) = mset (map (encode e) src)"
    unfolding p .
  with f p fp(2) show ?thesis
    by (metis length_map)
qed

lemma finished_any_file:
  assumes "file_inv src s" "sent_inv e s" "owner_valid s" "pall_done s"
  shows "numbers_read s = int (length (sent s))
    \<and> map snd (pout s) = take (nat (numbers_read s)) src
    \<and> mset (map fst (sent s)) = mset (map (encode e) (take (nat (numbers_read s)) src))"
proof -
  note fp = finished_prefix [OF assms]
  have n: "nat (numbers_read s) = length (map snd (pout s))"
    by (simp add: fp(2))
  have p: "map snd (pout s) = take (nat (numbers_read s)) src"
    unfolding n by (subst fp(1)) simp
  from fp(4) have "mset (map fst (sent s)) = mset (map (encode e) (take (nat (numbers_read s)) src))"
    using p by simp
  with p fp(2,3) show ?thesis by simp
qed

lemma prun_scan_fails:
  assumes "\<not> killed s" "t < length (ppcs s)" "ppcs s ! t = P_scan"
    "sign_next (lone_signs s) \<or> input_file s = []"
  shows "prun e [(t, r1), (t, r2)] s =
     s\<lparr>lone_signs := skip_sign (lone_signs s), file_mutex := None,
       ppcs := (ppcs s)[t := P_done]\<rparr>"
  using assms by (simp add: prun_Cons prun_Nil pstep_scan_fails pstep_unlock_break)

lemma pinit_fields:
  "input_file (pinit src gs k) = src" "lone_signs (pinit src gs k) = gs"
  "numbers_read (pinit src gs k) = 0" "file_mutex (pinit src gs k) = None"
  "ppcs (pinit src gs k) = replicate k P_lock" "pout (pinit src gs k) = []"
  "perr (pinit src gs k) = []" "sent (pinit src gs k) = []"
  "sigpipe (pinit src gs k) = SIG_IGN" "\<not> killed (pinit src gs k)"
  by (simp_all add: pinit_def pstart_def)

lemma prun_scanning_events:
  "prun e scanning_events (pinit [1, 2, 3] [0, 2] 2) =
     (pinit [1, 2, 3] [0, 2] 2)\<lparr>input_file := [2, 3], lone_signs := [2], numbers_read := 1,
       file_mutex := Some 1, ppcs := [P_lock, P_scan], pout := [(0, 1)],
       sent := [(encode e 1, 4)]\<rparr>"
proof -
  let ?s = "pinit [1, 2, 3] [0, 2] 2"
  have "prun e (read_events 0) ?s =
      ?s\<lparr>input_file := [2, 3], lone_signs := tl (lone_signs ?s),
        numbers_read := numbers_read ?s + 1,
        file_mutex := None, ppcs := (ppcs ?s)[0 := P_lock],
        pout := pout ?s @ [(0, 1)], sent := sent ?s @ [(encode e 1, 4)]\<rparr>"
    by (rule prun_read_events) (simp_all add: pinit_fields MAX_DATA_def)
  then show ?thesis
    by (simp add: scanning_events_def prun_append numeral_eq_Suc prun_Cons prun_Nil pstep_def
        pgoto_def pinit_def pstart_def MAX_DATA_def)
qed

lemma prun_two_signs_events:
  "prun e two_signs_events (pinit [1, 2, 3] [0, 2] 2) =
     (pinit [1, 2, 3] [0, 2] 2)\<lparr>input_file := [2, 3], lone_signs := [0], numbers_read := 1,
       ppcs := [P_done, P_done], pout := [(0, 1)], sent := [(encode e 1, 4)]\<rparr>"
  by (simp add: two_signs_events_def read_events_def exit_events_def numeral_eq_Suc prun_Cons
      prun_Nil pstep_def pgoto_def send_returns_def pinit_def pstart_def MAX_DATA_def)

lemma prun_one_sign_events:
  "prun e one_sign_events (pinit [1, 2, 3] [0, 1] 2) =
     (pinit [1, 2, 3] [0, 1] 2)\<lparr>input_file := [], lone_signs := [], numbers_read := 3,
       ppcs := [P_done, P_done], pout := [(0, 1), (0, 2), (0, 3)],
       sent := [(encode e 1, 4), (encode e 2, 4), (encode e 3, 4)]\<rparr>"
  by (simp add: one_sign_events_def read_events_def exit_events_def numeral_eq_Suc prun_Cons
      prun_Nil pstep_def pgoto_def send_returns_def pinit_def pstart_def MAX_DATA_def)

text \<open>
  Claim C8, as stated, fails for a source with a malformed token. The file holds the
  integers 1, 2, 3 (so \<open>K = 3 < MAX_DATA\<close>) and no send fails. With two signs
  without a digit between 1 and 2, each of the two workers meets one of them, and both
  return with \<open>numbers_read = 1\<close>, one frame sent and 2 and 3 unread. With one such
  sign, the worker that meets it returns, and the other one reads on behind it to the end
  of the file: \<open>numbers_read\<close> ends at 3, not at 1, the number of values before the
  malformed token.
\<close>

theorem producer_lone_sign_counterexample:
  "int (length [1, 2, 3 :: c_int]) < MAX_DATA
   \<and> snd ` set two_signs_events = {Send_ret 4}
   \<and> pall_done (prun Little_endian two_signs_events (pinit [1, 2, 3] [0, 2] 2))
   \<and> numbers_read (prun Little_endian two_signs_events (pinit [1, 2, 3] [0, 2] 2)) = 1
   \<and> input_file (prun Little_endian two_signs_events (pinit [1, 2, 3] [0, 2] 2)) = [2, 3]
   \<and> sent (prun Little_endian two_signs_events (pinit [1, 2, 3] [0, 2] 2))
       = [(encode Little_endian 1, 4)]
   \<and> perr (prun Little_endian two_signs_events (pinit [1, 2, 3] [0, 2] 2)) = []
   \<and> snd ` set one_sign_events = {Send_ret 4}
   \<and> pall_done (prun Little_endian one_sign_events (pinit [1, 2, 3] [0, 1] 2))
   \<and> numbers_read (prun Little_endian one_sign_events (pinit [1, 2, 3] [0, 1] 2)) = 3"
  unfolding prun_two_signs_events prun_one_sign_events
  by (simp add: pall_done_def pinit_def pstart_def MAX_DATA_def two_signs_events_def
      one_sign_events_def read_events_def exit_events_def)

text \<open>
  Claim C8, amended. Let the file hold \<open>K < MAX_DATA\<close> integers and let no send fail
  (each returns 4). Then in every state of every run at most \<open>K\<close> values have been
  counted and at most \<open>K\<close> frames sent, and nothing has been written to \<open>stderr\<close>. A
  worker whose \<open>fscanf\<close> fails, at the end of the file or at a sign without a digit,
  unlocks and returns, leaving the counter as it is. When all workers have returned,
  the frames sent are exactly the frames of the first \<open>numbers_read\<close> integers of the
  file, each sent once. If the file holds no sign without a digit, then \<open>numbers_read = K\<close>
  when all workers (at least one) have returned: the values reported read are the
  integers of the file in their order and the frames sent are exactly their frames; and
  such a run exists: the workers can all return.
\<close>

theorem producer_sends_whole_source:
  assumes "s = prun e evs (pinit src gs k)" "\<forall>ev\<in>set evs. snd ev = Send_ret 4"
    "int (length src) < MAX_DATA"
  shows "numbers_read s \<le> int (length src) \<and> length (sent s) \<le> length src \<and> perr s = []
    \<and> (\<forall>x\<in>set (sent s). snd x = 4)
    \<and> (\<forall>t r1 r2. t < length (ppcs s) \<and> ppcs s ! t = P_scan
            \<and> (sign_next (lone_signs s) \<or> input_file s = []) \<longrightarrow>
          prun e [(t, r1), (t, r2)] s =
            s\<lparr>lone_signs := skip_sign (lone_signs s), file_mutex := None,
              ppcs := (ppcs s)[t := P_done]\<rparr>)
    \<and> (pall_done s \<longrightarrow>
          numbers_read s = int (length (sent s))
          \<and> map snd (pout s) = take (nat (numbers_read s)) src
          \<and> mset (map fst (sent s)) = mset (map (encode e) (take (nat (numbers_read s)) src)))
    \<and> (sign_free gs \<and> pall_done s \<and> 0 < k \<longrightarrow>
          numbers_read s = int (length src) \<and> input_file s = []
          \<and> mset (map fst (sent s)) = mset (map (encode e) src) \<and> map snd (pout s) = src)
    \<and> (sign_free gs \<longrightarrow>
          (\<exists>evs'. (\<forall>ev\<in>set evs'. snd ev = Send_ret 4)
             \<and> pall_done (prun e evs' (pinit src gs k))))"
proof -
  from assms(1) have inv: "pinv s" and finv: "file_inv src s" and sinv: "sent_inv e s"
    and ov: "owner_valid s"
    by (simp_all add: pinv_prun pinv_pinit file_inv_prun file_inv_pinit sent_inv_prun
        sent_inv_pinit owner_valid_prun owner_valid_pinit)
  from assms(1) have len: "length (ppcs s) = k"
    by (simp add: length_ppcs_prun pinit_def)
  from assms(1,2) have sl: "silent_inv s"
    by (simp add: silent_inv_prun silent_inv_pinit)
  from assms(1,2) have q: "sign_free gs \<Longrightarrow> quiet_inv s"
    by (simp add: quiet_inv_prun quiet_inv_pinit pinv_pinit)
  from inv have nk: "\<not> killed s"
    by (simp add: pinv_def)
  have "numbers_read s \<le> int (length src)"
    by (rule read_bound(1) [OF finv])
  moreover have "length (sent s) \<le> length src"
    using sent_bound [OF sinv] read_bound(2) [OF finv] by simp
  moreover from sl have "perr s = []" "\<forall>x\<in>set (sent s). snd x = 4"
    by (simp_all add: silent_inv_def)
  moreover have "\<forall>t r1 r2. t < length (ppcs s) \<and> ppcs s ! t = P_scan
            \<and> (sign_next (lone_signs s) \<or> input_file s = []) \<longrightarrow>
          prun e [(t, r1), (t, r2)] s =
            s\<lparr>lone_signs := skip_sign (lone_signs s), file_mutex := None,
              ppcs := (ppcs s)[t := P_done]\<rparr>"
    using prun_scan_fails [OF nk] by blast
  moreover have "pall_done s \<longrightarrow>
          numbers_read s = int (length (sent s))
          \<and> map snd (pout s) = take (nat (numbers_read s)) src
          \<and> mset (map fst (sent s)) = mset (map (encode e) (take (nat (numbers_read s)) src))"
    using finished_any_file [OF finv sinv ov] by blast
  moreover have "sign_free gs \<and> pall_done s \<and> 0 < k \<longrightarrow>
          numbers_read s = int (length src) \<and> input_file s = []
          \<and> mset (map fst (sent s)) = mset (map (encode e) src) \<and> map snd (pout s) = src"
    using finished [OF finv sinv q ov] len assms(3) by blast
  moreover have "sign_free gs \<longrightarrow> (\<exists>evs'. (\<forall>ev\<in>set evs'. snd ev = Send_ret 4)
      \<and> pall_done (prun e evs' (pinit src gs k)))"
  proof
    assume "sign_free gs"
    with prun_drain_events [of src gs e k] assms(3)
    have "pall_done (prun e (drain_events (if k = 0 then 0 else length src) k) (pinit src gs k))"
      by simp
    with drain_events_ok show "\<exists>evs'. (\<forall>ev\<in>set evs'. snd ev = Send_ret 4)
      \<and> pall_done (prun e evs' (pinit src gs k))"
      by blast
  qed
  ultimately show ?thesis by blast
qed

lemma scanning_events_ok: "\<forall>ev\<in>set scanning_events. snd ev = Send_ret 4"
  by (auto simp: scanning_events_def read_events_def)

theorem producer_sends_whole_source_witness:
  "pall_done (prun Little_endian (drain_events 1 2) (pinit [7] [] 2))
   \<and> numbers_read (prun Little_endian (drain_events 1 2) (pinit [7] [] 2)) = 1
   \<and> map snd (pout (prun Little_endian (drain_events 1 2) (pinit [7] [] 2))) = [7]
   \<and> mset (map fst (sent (prun Little_endian (drain_events 1 2) (pinit [7] [] 2))))
       = {#encode Little_endian 7#}
   \<and> ppcs (prun Little_endian scanning_events (pinit [1, 2, 3] [0, 2] 2)) = [P_lock, P_scan]
   \<and> lone_signs (prun Little_endian scanning_events (pinit [1, 2, 3] [0, 2] 2)) = [2]
   \<and> ppcs (prun Little_endian [(1, Send_ret 4), (1, Send_ret 4)]
        (prun Little_endian scanning_events (pinit [1, 2, 3] [0, 2] 2))) = [P_lock, P_done]
   \<and> lone_signs (prun Little_endian [(1, Send_ret 4), (1, Send_ret 4)]
        (prun Little_endian scanning_events (pinit [1, 2, 3] [0, 2] 2))) = [1]
   \<and> numbers_read (prun Little_endian [(1, Send_ret 4), (1, Send_ret 4)]
        (prun Little_endian scanning_events (pinit [1, 2, 3] [0, 2] 2))) = 1"
proof -
  let ?a = "prun Little_endian scanning_events (pinit [1, 2, 3] [0, 2] 2)"
  let ?b = "prun Little_endian (drain_events 1 2) (pinit [7] [] 2)"
  have k: "int (length [7 :: c_int]) < MAX_DATA" "int (length [1, 2, 3 :: c_int]) < MAX_DATA"
    by (simp_all add: MAX_DATA_def)
  have sf: "sign_free []"
    by (simp add: sign_free_def)
  have b: "pall_done ?b"
    using prun_drain_events [of "[7]" "[]" Little_endian 2] sf by (simp add: MAX_DATA_def)
  have a: "?a = (pinit [1, 2, 3] [0, 2] 2)\<lparr>input_file := [2, 3], lone_signs := [2],
       numbers_read := 1, file_mutex := Some 1, ppcs := [P_lock, P_scan], pout := [(0, 1)],
       sent := [(encode Little_endian 1, 4)]\<rparr>"
    by (rule prun_scanning_events)
  have a': "ppcs ?a = [P_lock, P_scan]" "lone_signs ?a = [2]" "numbers_read ?a = 1"
    unfolding a by simp_all
  from producer_sends_whole_source [OF refl drain_events_ok k(1), of Little_endian 1 2 "[]" 2] b sf
  have "numbers_read ?b = 1 \<and> map snd (pout ?b) = [7]
      \<and> mset (map fst (sent ?b)) = {#encode Little_endian 7#}"
    by simp
  moreover
  from producer_sends_whole_source [OF refl scanning_events_ok k(2), of Little_endian "[0, 2]" 2] a'
  have "prun Little_endian [(1, Send_ret 4), (1, Send_ret 4)] ?a
      = ?a\<lparr>lone_signs := skip_sign (lone_signs ?a), file_mutex := None,
          ppcs := (ppcs ?a)[1 := P_done]\<rparr>"
    by (simp add: numeral_2_eq_2)
  ultimately show ?thesis
    using a' b by (simp add: numeral_2_eq_2)
qed


section \<open>A failing send\<close>

lemma owner_holds_pinit: "owner_holds (pinit src gs k)"
  by (simp add: owner_holds_def pinit_def pstart_def)

lemma owner_holds_pstep:
  assumes "owner_holds s"
  shows "owner_holds (pstep e ev s)"
proof -
  obtain t r where ev: "ev = (t, r)"
    by (cases ev)
  show ?thesis
  proof (cases "t < length (ppcs s)")
    case False
    with assms show ?thesis by (simp add: pstep_absent ev)
  next
    case True
    with assms show ?thesis
      unfolding ev
      by (cases "ppcs s ! t"; cases r)
        (auto simp: pstep_def pgoto_def send_returns_def owner_holds_def nth_list_update
          split: list.split)
  qed
qed

lemma owner_holds_prun: "owner_holds s \<Longrightarrow> owner_holds (prun e evs s)"
  by (induction evs arbitrary: s) (simp_all add: prun_Nil prun_Cons owner_holds_pstep)

lemma pstep_after_failure:
  assumes "\<not> killed s" "sigpipe s = SIG_IGN" "u \<noteq> t"
    "s' = s\<lparr>sent := sn, perr := pe, ppcs := (ppcs s)[t := P_done]\<rparr>"
  shows "ppcs (pstep e (u, r) s') ! u = ppcs (pstep e (u, r) s) ! u
    \<and> \<not> killed (pstep e (u, r) s')
    \<and> input_file (pstep e (u, r) s') = input_file (pstep e (u, r) s)
    \<and> lone_signs (pstep e (u, r) s') = lone_signs (pstep e (u, r) s)
    \<and> numbers_read (pstep e (u, r) s') = numbers_read (pstep e (u, r) s)
    \<and> file_mutex (pstep e (u, r) s') = file_mutex (pstep e (u, r) s)
    \<and> pout (pstep e (u, r) s') = pout (pstep e (u, r) s)"
proof (cases "u < length (ppcs s)")
  case False
  with assms show ?thesis by (simp add: pstep_absent)
next
  case True
  with assms show ?thesis
    by (cases "ppcs s ! u"; cases r)
      (simp_all add: pstep_def pgoto_def send_returns_def split: list.split)
qed

lemma producer_main_ignores_sigpipe:
  assumes "producer_main e env = Exit c cs s"
  shows "sigpipe s = SIG_IGN \<and> \<not> killed s"
proof -
  have "pinv (prun e evs (pinit src gs k))" for evs src gs k
    by (simp add: pinv_prun pinv_pinit)
  then have p: "sigpipe (prun e evs (pinit src gs k)) = SIG_IGN
      \<and> \<not> killed (prun e evs (pinit src gs k))" for evs src gs k
    by (simp add: pinv_def)
  obtain r cl msgs where cl: "connect_loop (pe_attempts env) 0 = (r, cl, msgs)"
    by (cases "connect_loop (pe_attempts env) 0")
  show ?thesis
  proof (cases "pe_fork env \<le> 0 \<or> pe_fopen env = None")
    case True
    with assms show ?thesis
      by (auto simp: producer_main_def pfail_def pstart_def split: if_splits)
  next
    case False
    then obtain src gs where f: "pe_fopen env = Some (src, gs)" "\<not> pe_fork env < 0"
      "pe_fork env \<noteq> 0"
      by auto
    show ?thesis
    proof (cases r)
      case (Inl status)
      with assms f cl show ?thesis
        by (auto simp: producer_main_def pstart_def)
    next
      case (Inr fd)
      with assms f cl p show ?thesis
        by (auto simp: producer_main_def Let_def split: if_splits)
    qed
  qed
qed

lemma prun_sending_events:
  "prun e sending_events (pinit [7] [] 2) =
     (pinit [7] [] 2)\<lparr>input_file := [], numbers_read := 1, ppcs := [P_send 7, P_lock],
       pout := [(0, 7)]\<rparr>"
  by (simp add: sending_events_def numeral_eq_Suc prun_Cons prun_Nil pstep_def pgoto_def
      pinit_def pstart_def MAX_DATA_def)

text \<open>
  Claim C10. \<open>main\<close> ignores \<open>SIGPIPE\<close> before anything else, so in every state of
  every run of the workers the signal is ignored and the process has not been
  terminated (the same holds for the state in which \<open>main\<close> exits). A worker whose
  \<open>send\<close> meets a closed connection gets \<open>-1\<close> from the call, logs the failure and
  returns; with the default disposition the same event would have terminated the
  process. The failing worker does not hold the mutex, and the next statement of every
  other worker does to the shared variables, and to that worker's control point, what it
  would have done without the failure.
\<close>

theorem producer_send_failure_is_contained:
  assumes "s = prun e evs (pinit src gs k)" "t < length (ppcs s)" "ppcs s ! t = P_send v"
  shows "sigpipe pstart = SIG_DFL \<and> sigpipe s = SIG_IGN \<and> \<not> killed s
    \<and> pstep e (t, Send_peer_closed) s =
        s\<lparr>sent := sent s @ [(encode e v, - 1)], perr := perr s @ [''send failed''],
          ppcs := (ppcs s)[t := P_done]\<rparr>
    \<and> pstep e (t, Send_peer_closed) (s\<lparr>sigpipe := SIG_DFL\<rparr>)
        = s\<lparr>sigpipe := SIG_DFL, killed := True\<rparr>
    \<and> file_mutex s \<noteq> Some t
    \<and> (\<forall>u r. u \<noteq> t \<longrightarrow>
          ppcs (pstep e (u, r) (pstep e (t, Send_peer_closed) s)) ! u = ppcs (pstep e (u, r) s) ! u
        \<and> \<not> killed (pstep e (u, r) (pstep e (t, Send_peer_closed) s))
        \<and> input_file (pstep e (u, r) (pstep e (t, Send_peer_closed) s))
            = input_file (pstep e (u, r) s)
        \<and> lone_signs (pstep e (u, r) (pstep e (t, Send_peer_closed) s))
            = lone_signs (pstep e (u, r) s)
        \<and> numbers_read (pstep e (u, r) (pstep e (t, Send_peer_closed) s))
            = numbers_read (pstep e (u, r) s)
        \<and> file_mutex (pstep e (u, r) (pstep e (t, Send_peer_closed) s))
            = file_mutex (pstep e (u, r) s)
        \<and> pout (pstep e (u, r) (pstep e (t, Send_peer_closed) s)) = pout (pstep e (u, r) s))
    \<and> (\<forall>env c cs s'. producer_main e env = Exit c cs s' \<longrightarrow>
          sigpipe s' = SIG_IGN \<and> \<not> killed s')"
proof -
  from assms(1) have inv: "pinv s" and oh: "owner_holds s"
    by (simp_all add: pinv_prun pinv_pinit owner_holds_prun owner_holds_pinit)
  then have ign: "sigpipe s = SIG_IGN" and nk: "\<not> killed s"
    by (simp_all add: pinv_def)
  have step: "pstep e (t, Send_peer_closed) s =
        s\<lparr>sent := sent s @ [(encode e v, - 1)], perr := perr s @ [''send failed''],
          ppcs := (ppcs s)[t := P_done]\<rparr>"
    by (rule pstep_send_closed [OF nk assms(2,3) ign])
  have dfl: "pstep e (t, Send_peer_closed) (s\<lparr>sigpipe := SIG_DFL\<rparr>)
        = s\<lparr>sigpipe := SIG_DFL, killed := True\<rparr>"
    using nk assms(2,3) by (simp add: pstep_def)
  have free: "file_mutex s \<noteq> Some t"
    using oh assms(3) by (auto simp: owner_holds_def)
  have sib: "\<forall>u r. u \<noteq> t \<longrightarrow>
          ppcs (pstep e (u, r) (pstep e (t, Send_peer_closed) s)) ! u = ppcs (pstep e (u, r) s) ! u
        \<and> \<not> killed (pstep e (u, r) (pstep e (t, Send_peer_closed) s))
        \<and> input_file (pstep e (u, r) (pstep e (t, Send_peer_closed) s))
            = input_file (pstep e (u, r) s)
        \<and> lone_signs (pstep e (u, r) (pstep e (t, Send_peer_closed) s))
            = lone_signs (pstep e (u, r) s)
        \<and> numbers_read (pstep e (u, r) (pstep e (t, Send_peer_closed) s))
            = numbers_read (pstep e (u, r) s)
        \<and> file_mutex (pstep e (u, r) (pstep e (t, Send_peer_closed) s))
            = file_mutex (pstep e (u, r) s)
        \<and> pout (pstep e (u, r) (pstep e (t, Send_peer_closed) s)) = pout (pstep e (u, r) s)"
    using pstep_after_failure [OF nk ign _ step] by blast
  have "\<forall>env c cs s'. producer_main e env = Exit c cs s' \<longrightarrow>
          sigpipe s' = SIG_IGN \<and> \<not> killed s'"
    using producer_main_ignores_sigpipe by blast
  moreover have "sigpipe pstart = SIG_DFL"
    by (simp add: pstart_def)
  ultimately show ?thesis
    using ign nk step dfl free sib by blast
qed

theorem producer_send_failure_is_contained_witness:
  "ppcs (prun Little_endian sending_events (pinit [7] [] 2)) = [P_send 7, P_lock]
   \<and> ppcs (pstep Little_endian (0, Send_peer_closed)
        (prun Little_endian sending_events (pinit [7] [] 2))) = [P_done, P_lock]
   \<and> perr (pstep Little_endian (0, Send_peer_closed)
        (prun Little_endian sending_events (pinit [7] [] 2))) = [''send failed'']
   \<and> \<not> killed (pstep Little_endian (1, Send_ret 4) (pstep Little_endian (0, Send_peer_closed)
        (prun Little_endian sending_events (pinit [7] [] 2))))
   \<and> ppcs (pstep Little_endian (1, Send_ret 4) (pstep Little_endian (0, Send_peer_closed)
        (prun Little_endian sending_events (pinit [7] [] 2)))) ! 1 = P_check"
proof -
  let ?s = "prun Little_endian sending_events (pinit [7] [] 2)"
  have s: "?s = (pinit [7] [] 2)\<lparr>input_file := [], numbers_read := 1, ppcs := [P_send 7, P_lock],
       pout := [(0, 7)]\<rparr>"
    by (rule prun_sending_events)
  have h: "0 < length (ppcs ?s)" "ppcs ?s ! 0 = P_send 7"
    unfolding s by simp_all
  have u: "ppcs (pstep Little_endian (1, Send_ret 4) ?s) ! 1 = P_check"
    unfolding s by (simp add: pstep_def pgoto_def pinit_def pstart_def)
  have "(1::nat) \<noteq> 0" by simp
  with producer_send_failure_is_contained [OF refl h] u
  have "pstep Little_endian (0, Send_peer_closed) ?s =
        ?s\<lparr>sent := sent ?s @ [(encode Little_endian 7, - 1)], perr := perr ?s @ [''send failed''],
          ppcs := (ppcs ?s)[0 := P_done]\<rparr>"
    and "\<not> killed (pstep Little_endian (1, Send_ret 4) (pstep Little_endian (0, Send_peer_closed) ?s))"
    and "ppcs (pstep Little_endian (1, Send_ret 4) (pstep Little_endian (0, Send_peer_closed) ?s)) ! 1
        = P_check"
    by metis+
  then show ?thesis
    unfolding s by (simp add: pinit_def pstart_def)
qed


section \<open>The producer's connection loop\<close>

lemma connect_loop_retry:
  assumes "retryable (att j)" "int j < MAX_RETRIES"
  shows "connect_loop att (int j) = (case connect_loop att (int (Suc j)) of (r, cs, msgs) \<Rightarrow>
     (r, retry_block (att j) @ cs, msgs))"
proof -
  obtain fd c err where a: "att j = (fd, c, err)"
    by (cases "att j")
  have i: "int j + 1 = int (Suc j)" by simp
  from assms a show ?thesis
    by (subst connect_loop.simps) (auto simp: retryable_def retry_block_def i split: prod.splits)
qed

lemma connect_loop_retries:
  assumes "j \<le> k" "int k \<le> MAX_RETRIES" "\<forall>i. j \<le> i \<and> i < k \<longrightarrow> retryable (att i)"
  shows "connect_loop att (int j) = (case connect_loop att (int k) of (r, cs, msgs) \<Rightarrow>
     (r, retry_calls att j k @ cs, msgs))"
  using assms
proof (induction "k - j" arbitrary: j)
  case 0
  then have "j = k" by simp
  then show ?case by (simp add: retry_calls_def split: prod.splits)
next
  case (Suc d)
  then have lt: "j < k" and r: "retryable (att j)" by simp_all
  with Suc.prems have m: "int j < MAX_RETRIES" by simp
  from Suc.hyps(2) have d: "d = k - Suc j" by simp
  from lt Suc.prems have IH: "connect_loop att (int (Suc j))
      = (case connect_loop att (int k) of (r, cs, msgs) \<Rightarrow> (r, retry_calls att (Suc j) k @ cs, msgs))"
    by (intro Suc.hyps(1) [OF d]) simp_all
  from lt have u: "retry_calls att j k = retry_block (att j) @ retry_calls att (Suc j) k"
    by (simp add: retry_calls_def upt_conv_Cons)
  show ?case
    unfolding connect_loop_retry [of att j, OF r m] IH u by (simp split: prod.splits)
qed

lemma connect_loop_unfold:
  assumes "att k = (fd, c, err)"
  shows "connect_loop att (int k) =
    (if fd < 0
     then (Inl EXIT_FAILURE, [Socket fd, Kill_SIGTERM, Waitpid, Fclose],
           [''socket creation failed''])
     else if c = 0 then (Inr fd, [Socket fd, Connect fd], [])
     else if err = ECONNREFUSED \<or> err = ENETUNREACH then
       (if int k + 1 > MAX_RETRIES
        then (Inl EXIT_FAILURE,
              [Socket fd, Connect fd, Close fd, Usleep 100000, Kill_SIGTERM, Waitpid, Fclose],
              [''Failed to connect after 50 retries''])
        else (case connect_loop att (int k + 1) of (r, cs, msgs) \<Rightarrow>
                (r, [Socket fd, Connect fd, Close fd, Usleep 100000] @ cs, msgs)))
     else (Inl EXIT_FAILURE,
           [Socket fd, Connect fd, Close fd, Kill_SIGTERM, Waitpid, Fclose], [''connect'']))"
  by (subst connect_loop.simps) (simp add: assms)

lemma errno_other: "err \<noteq> Errno_other \<longleftrightarrow> err = ECONNREFUSED \<or> err = ENETUNREACH"
  by (cases err) simp_all

lemma connects_retry_calls: "length (filter is_connect (retry_calls att j k)) = k - j"
proof (induction "k - j" arbitrary: j)
  case 0
  then show ?case by (simp add: retry_calls_def)
next
  case (Suc d)
  then have lt: "j < k" and d: "d = k - Suc j" by simp_all
  from lt have u: "retry_calls att j k = retry_block (att j) @ retry_calls att (Suc j) k"
    by (simp add: retry_calls_def upt_conv_Cons)
  from Suc.hyps(1) [OF d] lt show ?case
    unfolding u by (simp add: retry_block_def split: prod.splits)
qed

lemma connect_calls_bound:
  assumes "j \<le> 50"
  shows "length (filter is_connect (fst (snd (connect_loop att (int j))))) \<le> 51 - j"
  using assms
proof (induction "50 - j" arbitrary: j)
  case 0
  then have j: "j = 50" by simp
  obtain fd c err where a: "att 50 = (fd, c, err)"
    by (cases "att 50")
  show ?case
    unfolding j connect_loop_unfold [of att 50, OF a] by (simp add: MAX_RETRIES_def)
next
  case (Suc d)
  then have lt: "j < 50" and d: "d = 50 - Suc j" by simp_all
  obtain fd c err where a: "att j = (fd, c, err)"
    by (cases "att j")
  obtain r cs msgs where n: "connect_loop att (int (Suc j)) = (r, cs, msgs)"
    by (cases "connect_loop att (int (Suc j))")
  have i: "int j + 1 = int (Suc j)" by simp
  from Suc.hyps(1) [OF d] lt n have "length (filter is_connect cs) \<le> 50 - j"
    by simp
  with lt show ?case
    unfolding connect_loop_unfold [of att j, OF a] i n by (auto simp: MAX_RETRIES_def)
qed

text \<open>
  Claim C6. Let the first \<open>k \<le> 50\<close> attempts fail with \<open>ECONNREFUSED\<close> or
  \<open>ENETUNREACH\<close>. Each of them creates a socket, tries to connect it, closes it and
  sleeps 100000 microseconds; the next attempt starts with a new \<open>socket\<close> call. If
  attempt \<open>k\<close> connects, the loop ends with the descriptor created in that attempt. If
  it fails with another error, or if it is the attempt after the 50th retry and fails
  again (or if no socket can be created), the producer closes the failed socket, sends
  \<open>SIGTERM\<close> to the consumer, waits for it and exits with \<open>EXIT_FAILURE\<close>, which is
  not 0. There are never more than 51 \<open>connect\<close> calls: the first attempt and 50 retries.
\<close>

theorem producer_connect_retry:
  assumes "int k \<le> MAX_RETRIES" "\<forall>j<k. retryable (att j)" "att k = (fd, c, err)"
  shows "(0 \<le> fd \<and> c = 0 \<longrightarrow>
            connect_loop att 0 = (Inr fd, retry_calls att 0 k @ [Socket fd, Connect fd], []))
    \<and> (0 \<le> fd \<and> c \<noteq> 0 \<and> err = Errno_other \<longrightarrow>
            connect_loop att 0 = (Inl EXIT_FAILURE,
              retry_calls att 0 k
                @ [Socket fd, Connect fd, Close fd, Kill_SIGTERM, Waitpid, Fclose],
              [''connect'']))
    \<and> (0 \<le> fd \<and> c \<noteq> 0 \<and> err \<noteq> Errno_other \<and> int k = MAX_RETRIES \<longrightarrow>
            connect_loop att 0 = (Inl EXIT_FAILURE,
              retry_calls att 0 k
                @ [Socket fd, Connect fd, Close fd, Usleep 100000, Kill_SIGTERM, Waitpid, Fclose],
              [''Failed to connect after 50 retries'']))
    \<and> (fd < 0 \<longrightarrow>
            connect_loop att 0 = (Inl EXIT_FAILURE,
              retry_calls att 0 k @ [Socket fd, Kill_SIGTERM, Waitpid, Fclose],
              [''socket creation failed'']))
    \<and> retry_calls att 0 k
         = concat (map (\<lambda>j. [Socket (fst (att j)), Connect (fst (att j)), Close (fst (att j)),
                              Usleep 100000]) [0..<k])
    \<and> length (filter is_connect (fst (snd (connect_loop att 0)))) \<le> 51
    \<and> EXIT_FAILURE \<noteq> 0 \<and> MAX_RETRIES = 50
    \<and> (\<forall>e env src st cs msgs.
          0 < pe_fork env \<and> pe_fopen env = Some src \<and> pe_attempts env = att
          \<and> connect_loop att 0 = (Inl st, cs, msgs) \<longrightarrow>
          producer_main e env = Exit st cs (pstart\<lparr>sigpipe := SIG_IGN, perr := msgs\<rparr>))"
proof -
  have run: "connect_loop att 0 = (case connect_loop att (int k) of (r, cs, msgs) \<Rightarrow>
     (r, retry_calls att 0 k @ cs, msgs))"
    using connect_loop_retries [of 0 k att] assms(1,2) by simp
  note last = connect_loop_unfold [of att k, OF assms(3)]
  have 1: "0 \<le> fd \<and> c = 0 \<longrightarrow>
            connect_loop att 0 = (Inr fd, retry_calls att 0 k @ [Socket fd, Connect fd], [])"
    unfolding run last by simp
  have 2: "0 \<le> fd \<and> c \<noteq> 0 \<and> err = Errno_other \<longrightarrow>
            connect_loop att 0 = (Inl EXIT_FAILURE,
              retry_calls att 0 k
                @ [Socket fd, Connect fd, Close fd, Kill_SIGTERM, Waitpid, Fclose],
              [''connect''])"
    unfolding run last by simp
  have 3: "0 \<le> fd \<and> c \<noteq> 0 \<and> err \<noteq> Errno_other \<and> int k = MAX_RETRIES \<longrightarrow>
            connect_loop att 0 = (Inl EXIT_FAILURE,
              retry_calls att 0 k
                @ [Socket fd, Connect fd, Close fd, Usleep 100000, Kill_SIGTERM, Waitpid, Fclose],
              [''Failed to connect after 50 retries''])"
    unfolding run last by (simp add: errno_other)
  have 4: "fd < 0 \<longrightarrow>
            connect_loop att 0 = (Inl EXIT_FAILURE,
              retry_calls att 0 k @ [Socket fd, Kill_SIGTERM, Waitpid, Fclose],
              [''socket creation failed''])"
    unfolding run last by simp
  have 5: "retry_calls att 0 k
         = concat (map (\<lambda>j. [Socket (fst (att j)), Connect (fst (att j)), Close (fst (att j)),
                              Usleep 100000]) [0..<k])"
    by (simp add: retry_calls_def retry_block_def split_def)
  have 6: "length (filter is_connect (fst (snd (connect_loop att 0)))) \<le> 51"
    using connect_calls_bound [of 0 att] by simp
  have 7: "\<forall>e env src st cs msgs.
          0 < pe_fork env \<and> pe_fopen env = Some src \<and> pe_attempts env = att
          \<and> connect_loop att 0 = (Inl st, cs, msgs) \<longrightarrow>
          producer_main e env = Exit st cs (pstart\<lparr>sigpipe := SIG_IGN, perr := msgs\<rparr>)"
    by (auto simp: producer_main_def)
  have 8: "EXIT_FAILURE \<noteq> 0 \<and> MAX_RETRIES = 50"
    by (simp add: EXIT_FAILURE_def MAX_RETRIES_def)
  from 1 2 3 4 5 6 7 8 show ?thesis by blast
qed

theorem producer_connect_retry_witness:
  "fst (connect_loop refused 0) = Inl EXIT_FAILURE
   \<and> length (filter is_connect (fst (snd (connect_loop refused 0)))) = 51
   \<and> snd (snd (connect_loop refused 0)) = [''Failed to connect after 50 retries'']
   \<and> connect_loop ready_at_2 0 =
       (Inr 4, [Socket 3, Connect 3, Close 3, Usleep 100000,
                Socket 3, Connect 3, Close 3, Usleep 100000, Socket 4, Connect 4], [])"
proof -
  have a: "int 50 \<le> MAX_RETRIES" "\<forall>j<50. retryable (refused j)"
    "refused 50 = (3, - 1, ECONNREFUSED)"
    by (simp_all add: MAX_RETRIES_def retryable_def refused_def)
  have b: "int 2 \<le> MAX_RETRIES" "\<forall>j<2. retryable (ready_at_2 j)"
    "ready_at_2 2 = (4, 0, Errno_other)"
    by (simp_all add: MAX_RETRIES_def retryable_def ready_at_2_def)
  have r: "retry_calls ready_at_2 0 2 = [Socket 3, Connect 3, Close 3, Usleep 100000,
      Socket 3, Connect 3, Close 3, Usleep 100000]"
    by (simp add: retry_calls_def retry_block_def ready_at_2_def upt_conv_Cons)
  from producer_connect_retry [OF a]
  have "connect_loop refused 0 = (Inl EXIT_FAILURE,
      retry_calls refused 0 50
        @ [Socket 3, Connect 3, Close 3, Usleep 100000, Kill_SIGTERM, Waitpid, Fclose],
      [''Failed to connect after 50 retries''])"
    by (simp add: MAX_RETRIES_def)
  moreover from producer_connect_retry [OF b]
  have "connect_loop ready_at_2 0 = (Inr 4, retry_calls ready_at_2 0 2 @ [Socket 4, Connect 4], [])"
    by simp
  ultimately show ?thesis
    by (simp add: connects_retry_calls r)
qed


section \<open>Exit codes and the consumer's timeout\<close>

lemma connect_loop_status: "fst (connect_loop att (int j)) = Inl st \<Longrightarrow> st = EXIT_FAILURE"
proof (induction "50 - j" arbitrary: j)
  case 0
  obtain fd c err where a: "att j = (fd, c, err)"
    by (cases "att j")
  from 0 show ?case
    unfolding connect_loop_unfold [of att j, OF a] by (auto simp: MAX_RETRIES_def split: if_splits)
next
  case (Suc d)
  obtain fd c err where a: "att j = (fd, c, err)"
    by (cases "att j")
  obtain x cs msgs where n: "connect_loop att (int (Suc j)) = (x, cs, msgs)"
    by (cases "connect_loop att (int (Suc j))")
  have i: "int j + 1 = int (Suc j)" by simp
  from Suc.hyps(2) have d: "d = 50 - Suc j" by simp
  from Suc.hyps(1) [OF d] n have "x = Inl st \<Longrightarrow> st = EXIT_FAILURE" by simp
  with Suc.prems show ?case
    unfolding connect_loop_unfold [of att j, OF a] i n by (auto split: if_splits)
qed

lemma create_loop_bound: "create_loop rets i n \<le> n"
  by (induction n arbitrary: i) simp_all

lemma consumer_exit_code:
  "exit_code (consumer_main e env) =
     (if consumer_setup_fails env then Some EXIT_FAILURE
      else if ce_accept env < 0 then Some 0
      else if call_done (crun e (ce_sched env)
          (cinit (create_loop (ce_create env) 0 NUM_THREADS)))
      then Some 0 else None)"
  by (simp add: consumer_main_def consumer_setup_fails_def cfail_def Let_def)

lemma producer_exit_code:
  "exit_code (producer_main e env) =
     (if producer_setup_fails env then Some EXIT_FAILURE
      else if pe_fork env = 0 then None
      else if pall_done (prun e (pe_sched env)
          (pinit (fst (the (pe_fopen env))) (snd (the (pe_fopen env)))
             (create_loop (pe_create env) 0 NUM_THREADS)))
      then Some 0 else None)"
proof -
  obtain x cs msgs where n: "connect_loop (pe_attempts env) 0 = (x, cs, msgs)"
    by (cases "connect_loop (pe_attempts env) 0")
  have "x = Inl st \<Longrightarrow> st = EXIT_FAILURE" for st
    using connect_loop_status [of "pe_attempts env" 0 st] n by simp
  then show ?thesis
    by (cases x; cases "pe_fopen env")
      (auto simp: producer_main_def producer_setup_fails_def pfail_def Let_def n)
qed

lemma connect_loop_refused: "fst (connect_loop refused 0) = Inl EXIT_FAILURE"
proof -
  have "connect_loop refused (int 0) = (case connect_loop refused (int 50) of (r, cs, msgs) \<Rightarrow>
     (r, retry_calls refused 0 50 @ cs, msgs))"
    by (rule connect_loop_retries) (simp_all add: MAX_RETRIES_def retryable_def refused_def)
  moreover have "fst (connect_loop refused (int 50)) = Inl EXIT_FAILURE"
    by (subst connect_loop_unfold [of refused 50 3 "- 1" ECONNREFUSED])
      (simp_all add: refused_def MAX_RETRIES_def)
  ultimately show ?thesis
    by (simp add: split_def)
qed

text \<open>
  Claim C5, as stated, fails: when \<open>pthread_create\<close> fails, \<open>main\<close> logs the failure,
  joins the workers created so far and still returns 0. Here the first
  \<open>pthread_create\<close> of the consumer returns 11 (\<open>EAGAIN\<close>) and the exit code is 0.
\<close>

theorem exit_code_thread_creation_counterexample:
  "ce_create cenv_create_fails 0 \<noteq> 0
   \<and> consumer_main Little_endian cenv_create_fails
       = Exit 0 [Socket 3, Alarm 5, Alarm 0, Close 3, Close 4] ((cinit 0)\<lparr>cerr := [''pthread_create'']\<rparr>)"
  by (simp add: cenv_create_fails_def cenv_ok_def consumer_main_def Let_def NUM_THREADS_def
      numeral_2_eq_2 create_log_def crun_Nil call_done_def cinit_def)

text \<open>
  Claim C5, amended. Whenever a \<open>main\<close> exits, its exit code is \<open>EXIT_FAILURE\<close> (not
  0) if a setup step has failed and 0 otherwise. The setup failures are: for the
  consumer a failing \<open>socket\<close>, \<open>setsockopt\<close>, \<open>bind\<close> or \<open>listen\<close>, or a
  failing \<open>accept\<close> that is not the timeout; for the producer a failing \<open>fork\<close>,
  \<open>execl\<close> (in the child) or \<open>fopen\<close>, and a connection loop that ends in \<open>exit\<close>
  (socket failure, a connect error that is not retried, or more than 50 retries). On
  each of them the process does exit with \<open>EXIT_FAILURE\<close>. The consumer's timeout exits
  with 0. A failing \<open>pthread_create\<close> is not a setup failure: a process whose first
  \<open>pthread_create\<close> fails exits with 0.
\<close>

theorem exit_codes:
  "(exit_code (consumer_main e cenv) = Some c \<longrightarrow>
      (c = EXIT_FAILURE \<longleftrightarrow> consumer_setup_fails cenv)
      \<and> (c = 0 \<longleftrightarrow> \<not> consumer_setup_fails cenv))
   \<and> (consumer_setup_fails cenv \<longrightarrow> exit_code (consumer_main e cenv) = Some EXIT_FAILURE)
   \<and> (\<not> consumer_setup_fails cenv \<and> ce_accept cenv < 0 \<longrightarrow>
        ce_timed_out cenv \<and> exit_code (consumer_main e cenv) = Some 0)
   \<and> (\<not> consumer_setup_fails cenv \<and> 0 \<le> ce_accept cenv \<and> ce_create cenv 0 \<noteq> 0 \<longrightarrow>
        exit_code (consumer_main e cenv) = Some 0)
   \<and> (exit_code (producer_main e penv) = Some c' \<longrightarrow>
      (c' = EXIT_FAILURE \<longleftrightarrow> producer_setup_fails penv)
      \<and> (c' = 0 \<longleftrightarrow> \<not> producer_setup_fails penv))
   \<and> (producer_setup_fails penv \<longrightarrow> exit_code (producer_main e penv) = Some EXIT_FAILURE)
   \<and> (\<not> producer_setup_fails penv \<and> 0 < pe_fork penv \<and> pe_create penv 0 \<noteq> 0 \<longrightarrow>
        exit_code (producer_main e penv) = Some 0)
   \<and> EXIT_FAILURE \<noteq> 0"
proof -
  have c0: "create_loop rets 0 NUM_THREADS = 0" if "rets 0 \<noteq> 0" for rets :: "nat \<Rightarrow> int"
    using that by (simp add: NUM_THREADS_def numeral_2_eq_2)
  have cd: "call_done (crun e evs (cinit 0))" for evs
  proof -
    have "cpcs (crun e evs s) = []" if "cpcs s = []" for s
      using that by (induction evs arbitrary: s) (simp_all add: crun_Nil crun_Cons cstep_def split_def)
    then show ?thesis
      by (simp add: call_done_def cinit_def)
  qed
  have pd: "pall_done (prun e evs (pinit src gs 0))" for evs src gs
  proof -
    have "length (ppcs (prun e evs (pinit src gs 0))) = 0"
      unfolding length_ppcs_prun by (simp add: pinit_def)
    then show ?thesis
      by (simp add: pall_done_def)
  qed
  have f: "EXIT_FAILURE \<noteq> 0"
    by (simp add: EXIT_FAILURE_def)
  have 1: "exit_code (consumer_main e cenv) = Some c \<longrightarrow>
      (c = EXIT_FAILURE \<longleftrightarrow> consumer_setup_fails cenv)
      \<and> (c = 0 \<longleftrightarrow> \<not> consumer_setup_fails cenv)"
    using f by (auto simp: consumer_exit_code split: if_splits)
  have 2: "consumer_setup_fails cenv \<longrightarrow> exit_code (consumer_main e cenv) = Some EXIT_FAILURE"
    by (simp add: consumer_exit_code)
  have 3: "\<not> consumer_setup_fails cenv \<and> ce_accept cenv < 0 \<longrightarrow>
        ce_timed_out cenv \<and> exit_code (consumer_main e cenv) = Some 0"
    by (auto simp: consumer_exit_code consumer_setup_fails_def)
  have 4: "\<not> consumer_setup_fails cenv \<and> 0 \<le> ce_accept cenv \<and> ce_create cenv 0 \<noteq> 0 \<longrightarrow>
        exit_code (consumer_main e cenv) = Some 0"
    by (auto simp: consumer_exit_code c0 cd)
  have 5: "exit_code (producer_main e penv) = Some c' \<longrightarrow>
      (c' = EXIT_FAILURE \<longleftrightarrow> producer_setup_fails penv)
      \<and> (c' = 0 \<longleftrightarrow> \<not> producer_setup_fails penv)"
    using f by (auto simp: producer_exit_code split: if_splits)
  have 6: "producer_setup_fails penv \<longrightarrow> exit_code (producer_main e penv) = Some EXIT_FAILURE"
    by (simp add: producer_exit_code)
  have 7: "\<not> producer_setup_fails penv \<and> 0 < pe_fork penv \<and> pe_create penv 0 \<noteq> 0 \<longrightarrow>
        exit_code (producer_main e penv) = Some 0"
    by (auto simp: producer_exit_code c0 pd)
  from 1 2 3 4 5 6 7 f show ?thesis by blast
qed

theorem exit_codes_witness:
  "exit_code (consumer_main Little_endian cenv_bind_fails) = Some EXIT_FAILURE
   \<and> exit_code (consumer_main Little_endian cenv_timeout) = Some 0
   \<and> exit_code (consumer_main Little_endian cenv_create_fails) = Some 0
   \<and> exit_code (producer_main Little_endian penv_refused) = Some EXIT_FAILURE
   \<and> exit_code (producer_main Little_endian penv_create_fails) = Some 0"
proof -
  have a: "consumer_setup_fails cenv_bind_fails" "\<not> consumer_setup_fails cenv_timeout"
    "ce_accept cenv_timeout < 0" "\<not> consumer_setup_fails cenv_create_fails"
    "0 \<le> ce_accept cenv_create_fails" "ce_create cenv_create_fails 0 \<noteq> 0"
    by (simp_all add: consumer_setup_fails_def cenv_bind_fails_def cenv_timeout_def
        cenv_create_fails_def cenv_ok_def)
  have "isl (fst (connect_loop refused 0))"
    by (simp add: connect_loop_refused)
  then have b: "producer_setup_fails penv_refused"
    by (simp add: producer_setup_fails_def penv_refused_def)
  have "connect_loop ready_at_2 (int 0) = (case connect_loop ready_at_2 (int 2) of (r, cs, msgs) \<Rightarrow>
     (r, retry_calls ready_at_2 0 2 @ cs, msgs))"
    by (rule connect_loop_retries) (simp_all add: MAX_RETRIES_def retryable_def ready_at_2_def)
  moreover have "fst (connect_loop ready_at_2 (int 2)) = Inr 4"
    by (subst connect_loop_unfold [of ready_at_2 2 4 0 Errno_other]) (simp_all add: ready_at_2_def)
  ultimately have "\<not> isl (fst (connect_loop ready_at_2 0))"
    by (simp add: split_def)
  then have c: "\<not> producer_setup_fails penv_create_fails" "0 < pe_fork penv_create_fails"
    "pe_create penv_create_fails 0 \<noteq> 0"
    by (simp_all add: producer_setup_fails_def penv_create_fails_def penv_refused_def)
  from exit_codes [of Little_endian cenv_bind_fails _ penv_refused] a(1) b
  have "exit_code (consumer_main Little_endian cenv_bind_fails) = Some EXIT_FAILURE"
    "exit_code (producer_main Little_endian penv_refused) = Some EXIT_FAILURE"
    by blast+
  moreover from exit_codes [of Little_endian cenv_timeout _ penv_create_fails] a(2,3) c
  have "exit_code (consumer_main Little_endian cenv_timeout) = Some 0"
    "exit_code (producer_main Little_endian penv_create_fails) = Some 0"
    by blast+
  moreover from exit_codes [of Little_endian cenv_create_fails] a(4,5,6)
  have "exit_code (consumer_main Little_endian cenv_create_fails) = Some 0"
    by blast
  ultimately show ?thesis by simp
qed

text \<open>
  Claim C7 does not hold of the code where \<open>signal\<close> has the BSD semantics. Let the
  consumer's setup succeed and let no producer connect. The alarm is armed and the
  handler sets \<open>timed_out\<close> after 5 seconds, but \<open>accept\<close> is restarted and never
  returns: the process neither writes its diagnostic nor exits. Only where \<open>signal\<close>
  has the System V semantics does the interrupted \<open>accept\<close> fail, and \<open>main\<close> then
  does what the claim says: it writes the diagnostic to \<open>stderr\<close>, closes the listening
  socket and returns 0 with no worker created, \<open>data_index = 0\<close> and the buffer
  untouched.
\<close>

theorem consumer_alone_never_leaves_accept:
  assumes "0 \<le> ce_socket env" "0 \<le> ce_setsockopt env" "0 \<le> ce_bind env" "0 \<le> ce_listen env"
  shows "accept_call BSD_signal No_producer = None
    \<and> consumer_process e BSD_signal No_producer env = None
    \<and> consumer_process e SysV_signal No_producer env =
        Some (Exit 0 [Socket (ce_socket env), Alarm 5, Close (ce_socket env)]
          ((cinit 0)\<lparr>cerr := [''No producer connected within timeout period'']\<rparr>))
    \<and> cpcs (cinit 0) = [] \<and> data_index (cinit 0) = 0 \<and> cout (cinit 0) = []
    \<and> recvd (cinit 0) = [] \<and> data_array (cinit 0) = replicate 100 0"
  using assms
  by (simp add: consumer_process_def accept_call_def consumer_main_def Let_def cinit_def
      MAX_DATA_def)

theorem consumer_alone_never_leaves_accept_witness:
  "consumer_process Little_endian BSD_signal No_producer cenv_ok = None
   \<and> consumer_process Little_endian SysV_signal No_producer cenv_ok =
       Some (Exit 0 [Socket 3, Alarm 5, Close 3]
         ((cinit 0)\<lparr>cerr := [''No producer connected within timeout period'']\<rparr>))"
  using consumer_alone_never_leaves_accept [of cenv_ok Little_endian]
  by (simp add: cenv_ok_def)


section \<open>From the source to the buffer\<close>






end
